theory Spec2Isabelle
  imports Main "HOL-Library.Word"
begin

section \<open>The asset store of minty (src/storage.js)\<close>

text \<open>
  \<^verbatim>\<open>AssetStorage\<close> adds assets to an embedded IPFS node and pins them on remote pinning
  services. The node (\<^verbatim>\<open>ipfs-core\<close>), the file system and the console are outside the
  repository: they are modelled as an explicit \<open>world\<close> that every operation takes and
  returns, together with an environment \<open>env\<close> that fixes what the outside does (which
  requests fail, which files exist, how content is hashed).

  Every \<^verbatim>\<open>await\<close> of a single caller is sequential, so \<^verbatim>\<open>init\<close>, \<^verbatim>\<open>addAsset\<close> and \<^verbatim>\<open>get\<close>
  are state-passing functions. The fan-out of \<^verbatim>\<open>pin\<close> is concurrent: one promise per
  service, combined with \<^verbatim>\<open>Promise.all\<close>. It is modelled by an explicit schedule, the
  order in which the pending requests of the promises complete.
\<close>

subsection \<open>Data\<close>

text \<open>
  A content identifier, by its text. The node takes an identifier as a CID object or as
  its text alike (\<^verbatim>\<open>pin.remote.ls\<close>, \<^verbatim>\<open>pin.remote.add\<close>, \<^verbatim>\<open>cat\<close>), so the requests of the
  model carry the text.
\<close>

type_synonym cid = string

text \<open>
  The \<^verbatim>\<open>cid\<close> field of what \<^verbatim>\<open>ipfs.add\<close> returns is a CID object of \<^verbatim>\<open>ipfs-core\<close>, not a
  string: it has \<^verbatim>\<open>toString\<close> but none of the methods of strings.
\<close>

datatype cid_object = CidObject cid

fun toString :: "cid_object \<Rightarrow> string" where
  "toString (CidObject k) = k"

text \<open>A value as a caller may pass it to \<^verbatim>\<open>get\<close>: a string or a CID object.\<close>

datatype jsvalue = JString string | JCid cid_object

type_synonym bytes = "8 word list"

datatype error =
    TypeError
  | InitializationFailure
  | RegistrationFailure string
  | IOError string
  | AddFailure
  | NotFound cid
  | BackendFailure string

text \<open>Requests sent to the outside, in the order they are issued.\<close>

datatype call =
    NodeCreate
  | ServiceAdd string string string
  | ReadFile string
  | NodeAdd string bytes
  | RemoteLs cid string
  | RemoteAdd cid string bool
  | NodeCat cid

datatype logmsg =
    LogReading string
  | LogAdded cid
  | LogNoServices cid
  | LogPinned cid
  | LogPinError error
  | LogAlreadyPinned cid

text \<open>\<^verbatim>\<open>svc.accessToken\<close> is a string or a function of no argument returning one.\<close>

datatype credential = Literal string | Callable "unit \<Rightarrow> string"

record svc_config =
  svc_name :: string
  svc_endpoint :: string
  svc_accessToken :: credential

text \<open>The fields of an \<^verbatim>\<open>AssetStorage\<close> instance; \<^verbatim>\<open>undefined\<close> is \<open>None\<close>.\<close>

record asset_storage =
  config :: "svc_config list"
  initialized :: bool
  ipfs :: "nat option"
  pinningServices :: "string list"

text \<open>
  The outside: how many nodes were created (a handle is the number of its node), the
  content held by the network, the services registered with the node, the pins held by
  the remote services, the requests issued, the listing and pin requests of \<^verbatim>\<open>pin\<close> that
  failed, and the lines printed.
\<close>

record world =
  nodes :: nat
  blocks :: "(cid \<times> bytes) list"
  services :: "(string \<times> string \<times> string) list"
  pins :: "(string \<times> cid) list"
  calls :: "call list"
  failed :: "call list"
  console :: "logmsg list"

text \<open>
  What the outside decides: \<open>fails h c\<close> says whether request \<open>c\<close> fails after the
  requests \<open>h\<close>; \<open>files\<close> is the file system; \<open>cid_of\<close> is the node's content hash;
  \<open>basename\<close>, \<open>utf8\<close> and \<open>base64\<close> stand for \<^verbatim>\<open>path.basename\<close> and the two encodings of
  \<^verbatim>\<open>uint8arrays/to-string\<close>.
\<close>

record env =
  fails :: "call list \<Rightarrow> call \<Rightarrow> bool"
  files :: "string \<Rightarrow> bytes option"
  cid_of :: "bytes \<Rightarrow> cid"
  basename :: "string \<Rightarrow> string"
  utf8 :: "bytes \<Rightarrow> string"
  base64 :: "bytes \<Rightarrow> string"

type_synonym 'a outcome = "error + 'a"

subsection \<open>Construction and initialization\<close>

definition constructor :: "svc_config list \<Rightarrow> asset_storage" where
  "constructor cfg =
     \<lparr>config = cfg, initialized = False, ipfs = None, pinningServices = []\<rparr>"

definition resolve_key :: "credential \<Rightarrow> string" where
  "resolve_key tok = (case tok of Callable f \<Rightarrow> f () | Literal k \<Rightarrow> k)"

definition register_call :: "svc_config \<Rightarrow> call" where
  "register_call svc =
     ServiceAdd (svc_name svc) (svc_endpoint svc) (resolve_key (svc_accessToken svc))"

text \<open>
  The \<^verbatim>\<open>for\<close> loop of \<^verbatim>\<open>init\<close>: a rejected \<^verbatim>\<open>service.add\<close> leaves the loop and \<^verbatim>\<open>init\<close>
  by the exception, before the name is pushed.
\<close>

fun register_all ::
  "env \<Rightarrow> svc_config list \<Rightarrow> asset_storage \<Rightarrow> world \<Rightarrow> unit outcome \<times> asset_storage \<times> world"
where
  "register_all e [] s w = (Inr (), s, w)"
| "register_all e (svc # rest) s w =
     (let c = register_call svc;
          w1 = w\<lparr>calls := calls w @ [c]\<rparr>
      in if fails e (calls w) c
         then (Inl (RegistrationFailure (svc_name svc)), s, w1)
         else register_all e rest
                (s\<lparr>pinningServices := pinningServices s @ [svc_name svc]\<rparr>)
                (w1\<lparr>services := services w1 @
                   [(svc_name svc, svc_endpoint svc, resolve_key (svc_accessToken svc))]\<rparr>))"

definition init :: "env \<Rightarrow> asset_storage \<Rightarrow> world \<Rightarrow> unit outcome \<times> asset_storage \<times> world" where
  "init e s w =
     (if initialized s then (Inr (), s, w)
      else
        let w1 = w\<lparr>calls := calls w @ [NodeCreate]\<rparr>
        in if fails e (calls w) NodeCreate then (Inl InitializationFailure, s, w1)
           else
             (case register_all e (config s) (s\<lparr>ipfs := Some (nodes w)\<rparr>)
                     (w1\<lparr>nodes := Suc (nodes w)\<rparr>) of
                (Inl err, s2, w2) \<Rightarrow> (Inl err, s2, w2)
              | (Inr _, s2, w2) \<Rightarrow> (Inr (), s2\<lparr>initialized := True\<rparr>, w2)))"

definition MakeAssetStorage :: "env \<Rightarrow> svc_config list \<Rightarrow> world \<Rightarrow> asset_storage outcome \<times> world" where
  "MakeAssetStorage e cfg w =
     (case init e (constructor cfg) w of
        (Inl err, s, w1) \<Rightarrow> (Inl err, w1)
      | (Inr _, s, w1) \<Rightarrow> (Inr s, w1))"

subsection \<open>Pinning\<close>

text \<open>
  The state of one promise \<^verbatim>\<open>_pinIfUnpinned(cid, service)\<close>: waiting for the listing of
  \<^verbatim>\<open>isPinned\<close>, waiting for the pin request, or settled.
\<close>

datatype task = AwaitLs | AwaitAdd | Fulfilled | Rejected error

text \<open>
  \<^verbatim>\<open>_pinIfUnpinned\<close> runs up to its first pending request when it is called: it sends the
  listing request, or dereferences an undefined \<^verbatim>\<open>this.ipfs\<close>.
\<close>

definition pinIfUnpinned_start :: "asset_storage \<Rightarrow> cid \<Rightarrow> string \<Rightarrow> world \<Rightarrow> task \<times> world" where
  "pinIfUnpinned_start s c svc w =
     (case ipfs s of
        None \<Rightarrow> (Rejected TypeError, w)
      | Some h \<Rightarrow> (AwaitLs, w\<lparr>calls := calls w @ [RemoteLs c svc]\<rparr>))"

text \<open>
  The listing of \<^verbatim>\<open>isPinned\<close> completes: it fails, or it tells whether the service
  holds a pin of the identifier (\<^verbatim>\<open>isPinned\<close> returns true at the first entry listed).
  For the two requests of a promise, \<open>fails\<close> is asked when the request completes.
\<close>

definition isPinned :: "env \<Rightarrow> cid \<Rightarrow> string \<Rightarrow> world \<Rightarrow> bool outcome" where
  "isPinned e c svc w =
     (if fails e (calls w) (RemoteLs c svc) then Inl (BackendFailure svc)
      else Inr ((svc, c) \<in> set (pins w)))"

text \<open>
  The pending request of a promise completes. A listing with an entry fulfils the
  promise; an empty one sends \<^verbatim>\<open>pin.remote.add\<close> with \<^verbatim>\<open>background: false\<close>; a completed
  pin request is recorded by the service. A request that fails rejects the promise (the
  world keeps the failed request). A settled promise stays as it is.
\<close>

fun step_task :: "env \<Rightarrow> cid \<Rightarrow> string \<Rightarrow> task \<Rightarrow> world \<Rightarrow> task \<times> world" where
  "step_task e c svc AwaitLs w =
     (case isPinned e c svc w of
        Inl err \<Rightarrow> (Rejected err, w\<lparr>failed := failed w @ [RemoteLs c svc]\<rparr>)
      | Inr pinned \<Rightarrow>
          if pinned then (Fulfilled, w\<lparr>console := console w @ [LogAlreadyPinned c]\<rparr>)
          else (AwaitAdd, w\<lparr>calls := calls w @ [RemoteAdd c svc False]\<rparr>))"
| "step_task e c svc AwaitAdd w =
     (if fails e (calls w) (RemoteAdd c svc False)
      then (Rejected (BackendFailure svc), w\<lparr>failed := failed w @ [RemoteAdd c svc False]\<rparr>)
      else (Fulfilled, w\<lparr>pins := pins w @ [(svc, c)]\<rparr>))"
| "step_task e c svc Fulfilled w = (Fulfilled, w)"
| "step_task e c svc (Rejected err) w = (Rejected err, w)"

text \<open>The \<^verbatim>\<open>for\<close> loop of \<^verbatim>\<open>pin\<close> that fills \<^verbatim>\<open>promises\<close>.\<close>

fun start_all :: "asset_storage \<Rightarrow> cid \<Rightarrow> string list \<Rightarrow> world \<Rightarrow> (string \<times> task) list \<times> world" where
  "start_all s c [] w = ([], w)"
| "start_all s c (svc # rest) w =
     (case pinIfUnpinned_start s c svc w of
        (t, w1) \<Rightarrow> (case start_all s c rest w1 of (ps, w2) \<Rightarrow> ((svc, t) # ps, w2)))"

text \<open>Event \<open>i\<close>: the pending request of promise number \<open>i\<close> completes.\<close>

definition deliver ::
  "env \<Rightarrow> cid \<Rightarrow> nat \<Rightarrow> (string \<times> task) list \<Rightarrow> world \<Rightarrow> (string \<times> task) list \<times> world"
where
  "deliver e c i ps w =
     (if i < length ps
      then (case step_task e c (fst (ps ! i)) (snd (ps ! i)) w of
              (t, w1) \<Rightarrow> (ps[i := (fst (ps ! i), t)], w1))
      else (ps, w))"

fun run ::
  "env \<Rightarrow> cid \<Rightarrow> nat list \<Rightarrow> (string \<times> task) list \<Rightarrow> world \<Rightarrow> (string \<times> task) list \<times> world"
where
  "run e c [] ps w = (ps, w)"
| "run e c (i # evs) ps w = (case deliver e c i ps w of (ps1, w1) \<Rightarrow> run e c evs ps1 w1)"

text \<open>
  The rejection that \<^verbatim>\<open>Promise.all\<close> reports (events come one at a time, so at most one
  promise is rejected when it is looked at, unless all were rejected at the start), and
  whether all promises are fulfilled.
\<close>

fun first_rejection :: "(string \<times> task) list \<Rightarrow> error option" where
  "first_rejection [] = None"
| "first_rejection ((svc, Rejected err) # ps) = Some err"
| "first_rejection (p # ps) = first_rejection ps"

definition all_fulfilled :: "(string \<times> task) list \<Rightarrow> bool" where
  "all_fulfilled ps = list_all (\<lambda>p. snd p = Fulfilled) ps"

definition settled :: "task \<Rightarrow> bool" where
  "settled t = (t \<noteq> AwaitLs \<and> t \<noteq> AwaitAdd)"

text \<open>
  \<^verbatim>\<open>await Promise.all(promises)\<close>: rejected as soon as one promise is, fulfilled once all
  are, and pending for ever (\<open>None\<close>) when the requests it waits for never complete.
\<close>

fun await_all ::
  "env \<Rightarrow> cid \<Rightarrow> nat list \<Rightarrow> (string \<times> task) list \<Rightarrow> world
   \<Rightarrow> (unit outcome \<times> (string \<times> task) list \<times> world) option"
where
  "await_all e c [] ps w =
     (case first_rejection ps of
        Some err \<Rightarrow> Some (Inl err, ps, w)
      | None \<Rightarrow> if all_fulfilled ps then Some (Inr (), ps, w) else None)"
| "await_all e c (i # evs) ps w =
     (case first_rejection ps of
        Some err \<Rightarrow> Some (Inl err, ps, w)
      | None \<Rightarrow>
          if all_fulfilled ps then Some (Inr (), ps, w)
          else (case deliver e c i ps w of (ps1, w1) \<Rightarrow> await_all e c evs ps1 w1))"

text \<open>
  \<^verbatim>\<open>pin\<close>. Besides the outcome, the store and the world, the model returns the promises
  as they are when \<^verbatim>\<open>pin\<close> returns; promises still pending then go on afterwards, as
  \<open>run\<close> says. \<open>None\<close>: \<^verbatim>\<open>pin\<close> never returns under this schedule.
\<close>

definition pin ::
  "env \<Rightarrow> nat list \<Rightarrow> cid \<Rightarrow> asset_storage \<Rightarrow> world
   \<Rightarrow> (unit outcome \<times> asset_storage \<times> world \<times> (string \<times> task) list) option"
where
  "pin e sched c s w =
     (case init e s w of
        (Inl err, s1, w1) \<Rightarrow> Some (Inl err, s1, w1, [])
      | (Inr _, s1, w1) \<Rightarrow>
          if length (pinningServices s1) < 1
          then Some (Inr (), s1, w1\<lparr>console := console w1 @ [LogNoServices c]\<rparr>, [])
          else
            (case start_all s1 c (pinningServices s1) w1 of
               (ps, w2) \<Rightarrow>
                 (case await_all e c sched ps w2 of
                    None \<Rightarrow> None
                  | Some (Inr _, ps1, w3) \<Rightarrow>
                      Some (Inr (), s1, w3\<lparr>console := console w3 @ [LogPinned c]\<rparr>, ps1)
                  | Some (Inl err, ps1, w3) \<Rightarrow>
                      Some (Inr (), s1, w3\<lparr>console := console w3 @ [LogPinError err]\<rparr>, ps1))))"

subsection \<open>Adding and reading assets\<close>

text \<open>The \<^verbatim>\<open>if (assetData == null)\<close> block of \<^verbatim>\<open>addAsset\<close>.\<close>

definition read_asset :: "env \<Rightarrow> string \<Rightarrow> bytes option \<Rightarrow> world \<Rightarrow> bytes outcome \<times> world" where
  "read_asset e filename assetData w =
     (case assetData of
        Some d \<Rightarrow> (Inr d, w)
      | None \<Rightarrow>
          (let w1 = w\<lparr>console := console w @ [LogReading filename],
                      calls := calls w @ [ReadFile filename]\<rparr>
           in case files e filename of
                None \<Rightarrow> (Inl (IOError filename), w1)
              | Some d \<Rightarrow> (Inr d, w1)))"

text \<open>
  \<^verbatim>\<open>await this.ipfs.add({path: path.basename(filename), content: assetData})\<close>: the
  node stores the content under its identifier and returns the identifier as a CID
  object.
\<close>

definition node_add ::
  "env \<Rightarrow> string \<Rightarrow> bytes \<Rightarrow> asset_storage \<Rightarrow> world \<Rightarrow> cid_object outcome \<times> world"
where
  "node_add e filename d s w =
     (case ipfs s of
        None \<Rightarrow> (Inl TypeError, w)
      | Some h \<Rightarrow>
          (if fails e (calls w) (NodeAdd (basename e filename) d)
           then (Inl AddFailure, w\<lparr>calls := calls w @ [NodeAdd (basename e filename) d]\<rparr>)
           else (Inr (CidObject (cid_of e d)),
                 w\<lparr>calls := calls w @ [NodeAdd (basename e filename) d],
                   blocks := (cid_of e d, d) # blocks w\<rparr>)))"

text \<open>
  \<^verbatim>\<open>addAsset\<close> gives \<^verbatim>\<open>asset.cid\<close> to \<^verbatim>\<open>pin\<close> and returns it as it is, the CID object.
\<close>

definition addAsset ::
  "env \<Rightarrow> nat list \<Rightarrow> string \<Rightarrow> bytes option \<Rightarrow> asset_storage \<Rightarrow> world
   \<Rightarrow> (cid_object outcome \<times> asset_storage \<times> world) option"
where
  "addAsset e sched filename assetData s w =
     (case init e s w of
        (Inl err, s1, w1) \<Rightarrow> Some (Inl err, s1, w1)
      | (Inr _, s1, w1) \<Rightarrow>
          (case read_asset e filename assetData w1 of
             (Inl err, w2) \<Rightarrow> Some (Inl err, s1, w2)
           | (Inr d, w2) \<Rightarrow>
               (case node_add e filename d s1 w2 of
                  (Inl err, w3) \<Rightarrow> Some (Inl err, s1, w3)
                | (Inr k, w3) \<Rightarrow>
                    (case pin e sched (toString k) s1
                            (w3\<lparr>console := console w3 @ [LogAdded (toString k)]\<rparr>) of
                       None \<Rightarrow> None
                     | Some (Inl err, s2, w4, ps) \<Rightarrow> Some (Inl err, s2, w4)
                     | Some (Inr _, s2, w4, ps) \<Rightarrow> Some (Inr k, s2, w4)))))"

definition startsWith :: "string \<Rightarrow> string \<Rightarrow> bool" where
  "startsWith str p = (take (length p) str = p)"

text \<open>\<^verbatim>\<open>uint8ArrayConcat(await all(this.ipfs.cat(cid)))\<close>: the content the node holds for \<open>k\<close>.\<close>

definition node_cat :: "env \<Rightarrow> cid \<Rightarrow> asset_storage \<Rightarrow> world \<Rightarrow> bytes outcome \<times> world" where
  "node_cat e k s w =
     (case ipfs s of
        None \<Rightarrow> (Inl TypeError, w)
      | Some h \<Rightarrow>
          (let w1 = w\<lparr>calls := calls w @ [NodeCat k]\<rparr>
           in if fails e (calls w) (NodeCat k) then (Inl (NotFound k), w1)
              else (case map_of (blocks w) k of
                      None \<Rightarrow> (Inl (NotFound k), w1)
                    | Some b \<Rightarrow> (Inr b, w1))))"

definition get :: "env \<Rightarrow> string \<Rightarrow> asset_storage \<Rightarrow> world \<Rightarrow> bytes outcome \<times> world" where
  "get e cidOrURI s w =
     (let k = (if startsWith cidOrURI ''ipfs://''
               then drop (length ''ipfs://'') cidOrURI else cidOrURI)
      in node_cat e k s w)"

text \<open>
  \<^verbatim>\<open>get\<close> as JavaScript calls it, with a value of any kind: \<^verbatim>\<open>startsWith\<close> is a method of
  strings, and \<^verbatim>\<open>cidOrURI.startsWith(...)\<close> on a CID object raises a TypeError before
  anything else is done.
\<close>

definition get_value :: "env \<Rightarrow> jsvalue \<Rightarrow> asset_storage \<Rightarrow> world \<Rightarrow> bytes outcome \<times> world" where
  "get_value e v s w =
     (case v of
        JString cidOrURI \<Rightarrow> get e cidOrURI s w
      | JCid k \<Rightarrow> (Inl TypeError, w))"

definition getString :: "env \<Rightarrow> string \<Rightarrow> asset_storage \<Rightarrow> world \<Rightarrow> string outcome \<times> world" where
  "getString e cidOrURI s w =
     (case get e cidOrURI s w of
        (Inl err, w1) \<Rightarrow> (Inl err, w1)
      | (Inr b, w1) \<Rightarrow> (Inr (utf8 e b), w1))"

definition getBase64String :: "env \<Rightarrow> string \<Rightarrow> asset_storage \<Rightarrow> world \<Rightarrow> string outcome \<times> world" where
  "getBase64String e cidOrURI s w =
     (case get e cidOrURI s w of
        (Inl err, w1) \<Rightarrow> (Inl err, w1)
      | (Inr b, w1) \<Rightarrow> (Inr (base64 e b), w1))"

subsection \<open>Observations on the request trace\<close>

text \<open>
  The requests that create a node or register a service, and the pin and listing
  requests sent to one service.
\<close>

fun is_setup :: "call \<Rightarrow> bool" where
  "is_setup NodeCreate = True"
| "is_setup (ServiceAdd n ep k) = True"
| "is_setup c = False"

fun is_pin_request :: "string \<Rightarrow> call \<Rightarrow> bool" where
  "is_pin_request svc (RemoteAdd k svc' bg) = (svc' = svc)"
| "is_pin_request svc c = False"

definition setup_calls :: "world \<Rightarrow> call list" where
  "setup_calls w = filter is_setup (calls w)"

definition pin_requests :: "string \<Rightarrow> world \<Rightarrow> call list" where
  "pin_requests svc w = filter (is_pin_request svc) (calls w)"

fun is_ls_request :: "string \<Rightarrow> call \<Rightarrow> bool" where
  "is_ls_request svc (RemoteLs k svc') = (svc' = svc)"
| "is_ls_request svc c = False"

definition ls_requests :: "string \<Rightarrow> world \<Rightarrow> call list" where
  "ls_requests svc w = filter (is_ls_request svc) (calls w)"

text \<open>
  What the promise of service \<open>svc\<close> has done so far, by its state: \<open>R0\<close> are the pin
  requests sent to \<open>svc\<close> before \<^verbatim>\<open>pin\<close> was called, \<open>P0\<close> whether \<open>svc\<close> held the pin then.
\<close>

definition task_inv :: "cid \<Rightarrow> call list \<Rightarrow> bool \<Rightarrow> string \<Rightarrow> task \<Rightarrow> world \<Rightarrow> bool" where
  "task_inv c R0 P0 svc t w =
     (case t of
        AwaitLs \<Rightarrow> pin_requests svc w = R0 \<and> ((svc, c) \<in> set (pins w)) = P0
      | AwaitAdd \<Rightarrow> pin_requests svc w = R0 @ [RemoteAdd c svc False] \<and> \<not> P0
      | Fulfilled \<Rightarrow> pin_requests svc w = (if P0 then R0 else R0 @ [RemoteAdd c svc False])
      | Rejected err \<Rightarrow>
          pin_requests svc w = R0 \<or> pin_requests svc w = R0 @ [RemoteAdd c svc False])"

text \<open>
  The requests a promise still waits for, and a schedule under which every one of the
  first \<open>n\<close> promises sees two of its requests complete.
\<close>

fun pending_steps :: "task \<Rightarrow> nat" where
  "pending_steps AwaitLs = 2"
| "pending_steps AwaitAdd = 1"
| "pending_steps t = 0"

definition fair :: "nat \<Rightarrow> nat list \<Rightarrow> bool" where
  "fair n sched = list_all (\<lambda>i. 2 \<le> count_list sched i) [0..<n]"

subsection \<open>Concrete stores and environments\<close>

text \<open>
  An environment in which nothing fails, a fresh world, a configuration of two services
  A and B (one credential a string, one a function), and the store and world that
  \<^verbatim>\<open>init\<close> makes of them. Its \<open>basename\<close> is right for names without a directory, and
  its two encodings are placeholders: no property below depends on them.
\<close>

definition env_ok :: env where
  "env_ok =
     \<lparr>fails = (\<lambda>h c. False), files = (\<lambda>p. None),
      cid_of = (\<lambda>b. ''Qm'' @ map (\<lambda>x. char_of (unat x)) b),
      basename = (\<lambda>p. p), utf8 = (\<lambda>b. []), base64 = (\<lambda>b. [])\<rparr>"

definition world0 :: world where
  "world0 =
     \<lparr>nodes = 0, blocks = [], services = [], pins = [], calls = [], failed = [],
      console = []\<rparr>"

definition cfgAB :: "svc_config list" where
  "cfgAB =
     [\<lparr>svc_name = ''A'', svc_endpoint = ''ea'', svc_accessToken = Literal ''ka''\<rparr>,
      \<lparr>svc_name = ''B'', svc_endpoint = ''eb'', svc_accessToken = Callable (\<lambda>_. ''kb'')\<rparr>]"

definition storeAB :: asset_storage where
  "storeAB =
     \<lparr>config = cfgAB, initialized = True, ipfs = Some 0, pinningServices = [''A'', ''B'']\<rparr>"

definition world_init :: world where
  "world_init =
     world0\<lparr>nodes := 1,
            services := [(''A'', ''ea'', ''ka''), (''B'', ''eb'', ''kb'')],
            calls := [NodeCreate, ServiceAdd ''A'' ''ea'' ''ka'', ServiceAdd ''B'' ''eb'' ''kb'']\<rparr>"

definition store_none :: asset_storage where
  "store_none = \<lparr>config = [], initialized = True, ipfs = Some 0, pinningServices = []\<rparr>"

text \<open>The world after \<^verbatim>\<open>addAsset("cat.png", [1, 2, 3])\<close> on a new store.\<close>

definition world_cat :: world where
  "world_cat =
     \<lparr>nodes = 1,
      blocks = [(cid_of env_ok [1, 2, 3], [1, 2, 3])],
      services = [(''A'', ''ea'', ''ka''), (''B'', ''eb'', ''kb'')],
      pins = [(''A'', cid_of env_ok [1, 2, 3]), (''B'', cid_of env_ok [1, 2, 3])],
      calls = [NodeCreate, ServiceAdd ''A'' ''ea'' ''ka'', ServiceAdd ''B'' ''eb'' ''kb'',
               NodeAdd ''cat.png'' [1, 2, 3],
               RemoteLs (cid_of env_ok [1, 2, 3]) ''A'', RemoteLs (cid_of env_ok [1, 2, 3]) ''B'',
               RemoteAdd (cid_of env_ok [1, 2, 3]) ''A'' False,
               RemoteAdd (cid_of env_ok [1, 2, 3]) ''B'' False],
      failed = [],
      console = [LogAdded (cid_of env_ok [1, 2, 3]), LogPinned (cid_of env_ok [1, 2, 3])]\<rparr>"

text \<open>The world after a first and after a second \<^verbatim>\<open>pin("X")\<close> on the initialized store.\<close>

definition world_X :: world where
  "world_X =
     world_init\<lparr>pins := [(''A'', ''X''), (''B'', ''X'')],
                calls := calls world_init @
                  [RemoteLs ''X'' ''A'', RemoteLs ''X'' ''B'',
                   RemoteAdd ''X'' ''A'' False, RemoteAdd ''X'' ''B'' False],
                console := [LogPinned ''X'']\<rparr>"

definition world_X2 :: world where
  "world_X2 =
     world_X\<lparr>calls := calls world_X @ [RemoteLs ''X'' ''A'', RemoteLs ''X'' ''B''],
             console := console world_X @
               [LogAlreadyPinned ''X'', LogAlreadyPinned ''X'', LogPinned ''X'']\<rparr>"

text \<open>
  An environment in which the listing of service A fails, and the worlds in which
  \<^verbatim>\<open>pin("X")\<close> returns there when A answers first and when B answers first; an
  environment in which the registration of A fails, and what \<^verbatim>\<open>init\<close> leaves there.
\<close>

definition env_lsA :: env where
  "env_lsA = env_ok\<lparr>fails := (\<lambda>h c. c = RemoteLs ''X'' ''A'')\<rparr>"

definition world_A_failed :: world where
  "world_A_failed =
     world_init\<lparr>calls := calls world_init @ [RemoteLs ''X'' ''A'', RemoteLs ''X'' ''B''],
                failed := [RemoteLs ''X'' ''A''],
                console := [LogPinError (BackendFailure ''A'')]\<rparr>"

definition world_B_adding :: world where
  "world_B_adding =
     world_init\<lparr>calls := calls world_init @
                  [RemoteLs ''X'' ''A'', RemoteLs ''X'' ''B'', RemoteAdd ''X'' ''B'' False],
                failed := [RemoteLs ''X'' ''A''],
                console := [LogPinError (BackendFailure ''A'')]\<rparr>"

text \<open>
  An environment in which the pin request to service B fails, and the world in which
  \<^verbatim>\<open>pin("X")\<close> returns there.
\<close>

definition env_addB :: env where
  "env_addB = env_ok\<lparr>fails := (\<lambda>h c. c = RemoteAdd ''X'' ''B'' False)\<rparr>"

definition world_B_failed :: world where
  "world_B_failed =
     world_init\<lparr>pins := [(''A'', ''X'')],
                calls := calls world_init @
                  [RemoteLs ''X'' ''A'', RemoteLs ''X'' ''B'',
                   RemoteAdd ''X'' ''A'' False, RemoteAdd ''X'' ''B'' False],
                failed := [RemoteAdd ''X'' ''B'' False],
                console := [LogPinError (BackendFailure ''B'')]\<rparr>"

definition env_regA :: env where
  "env_regA = env_ok\<lparr>fails := (\<lambda>h c. c = ServiceAdd ''A'' ''ea'' ''ka'')\<rparr>"

definition store_regA :: asset_storage where
  "store_regA = \<lparr>config = cfgAB, initialized = False, ipfs = Some 0, pinningServices = []\<rparr>"

definition world_regA :: world where
  "world_regA = world0\<lparr>nodes := 1, calls := [NodeCreate, ServiceAdd ''A'' ''ea'' ''ka'']\<rparr>"

section \<open>Properties\<close>

subsection \<open>Initialization\<close>

lemma init_initialized: "initialized s \<Longrightarrow> init e s w = (Inr (), s, w)"
  by (simp add: init_def)

lemma register_all_store:
  "register_all e cfgs s w = (r, s', w') \<Longrightarrow>
     ipfs s' = ipfs s \<and> initialized s' = initialized s \<and> config s' = config s"
  by (induction cfgs arbitrary: s w) (auto simp: Let_def split: if_splits)

lemma register_all_world:
  "register_all e cfgs s w = (r, s', w') \<Longrightarrow>
     blocks w' = blocks w \<and> pins w' = pins w \<and> console w' = console w \<and> nodes w' = nodes w
     \<and> pin_requests svc w' = pin_requests svc w"
  by (induction cfgs arbitrary: s w) (auto simp: Let_def pin_requests_def register_call_def split: if_splits)

lemma init_cases:
  assumes "init e s w = (r, s', w')"
  obtains (already) "initialized s" "r = Inr ()" "s' = s" "w' = w"
  | (nocreate) "\<not> initialized s" "fails e (calls w) NodeCreate" "r = Inl InitializationFailure"
      "s' = s" "w' = w\<lparr>calls := calls w @ [NodeCreate]\<rparr>"
  | (regfail) err where "\<not> initialized s" "\<not> fails e (calls w) NodeCreate" "r = Inl err"
      "register_all e (config s) (s\<lparr>ipfs := Some (nodes w)\<rparr>)
         (w\<lparr>calls := calls w @ [NodeCreate], nodes := Suc (nodes w)\<rparr>) = (Inl err, s', w')"
  | (ok) s2 where "\<not> initialized s" "\<not> fails e (calls w) NodeCreate" "r = Inr ()"
      "register_all e (config s) (s\<lparr>ipfs := Some (nodes w)\<rparr>)
         (w\<lparr>calls := calls w @ [NodeCreate], nodes := Suc (nodes w)\<rparr>) = (Inr (), s2, w')"
      "s' = s2\<lparr>initialized := True\<rparr>"
proof (cases "initialized s")
  case True
  with assms have "r = Inr ()" "s' = s" "w' = w" by (simp_all add: init_def)
  with True show ?thesis by (rule already)
next
  case ni: False
  show ?thesis
  proof (cases "fails e (calls w) NodeCreate")
    case True
    with ni assms have "r = Inl InitializationFailure" "s' = s" "w' = w\<lparr>calls := calls w @ [NodeCreate]\<rparr>"
      by (simp_all add: init_def Let_def)
    with ni True show ?thesis by (rule nocreate)
  next
    case nf: False
    obtain r2 s2 w2 where reg: "register_all e (config s) (s\<lparr>ipfs := Some (nodes w)\<rparr>)
         (w\<lparr>calls := calls w @ [NodeCreate], nodes := Suc (nodes w)\<rparr>) = (r2, s2, w2)"
      using prod_cases3 by blast
    show ?thesis
    proof (cases r2)
      case (Inl err)
      with ni nf assms reg have "r = Inl err" "s' = s2" "w' = w2" by (simp_all add: init_def Let_def)
      with reg Inl have "register_all e (config s) (s\<lparr>ipfs := Some (nodes w)\<rparr>)
         (w\<lparr>calls := calls w @ [NodeCreate], nodes := Suc (nodes w)\<rparr>) = (Inl err, s', w')" by simp
      with ni nf \<open>r = Inl err\<close> show ?thesis by (rule regfail)
    next
      case (Inr u)
      with ni nf assms reg have "r = Inr ()" "s' = s2\<lparr>initialized := True\<rparr>" "w' = w2"
        by (simp_all add: init_def Let_def)
      with reg Inr have "register_all e (config s) (s\<lparr>ipfs := Some (nodes w)\<rparr>)
         (w\<lparr>calls := calls w @ [NodeCreate], nodes := Suc (nodes w)\<rparr>) = (Inr (), s2, w')" by simp
      with ni nf \<open>r = Inr ()\<close> show ?thesis using \<open>s' = s2\<lparr>initialized := True\<rparr>\<close> by (rule ok)
    qed
  qed
qed

lemma init_world:
  assumes "init e s w = (r, s', w')"
  shows "blocks w' = blocks w \<and> pins w' = pins w \<and> pin_requests svc w' = pin_requests svc w"
  using assms
proof (cases rule: init_cases)
  case already
  then show ?thesis by simp
next
  case nocreate
  then show ?thesis by (simp add: pin_requests_def)
next
  case (regfail err)
  from register_all_world[OF regfail(4), of svc] show ?thesis by (simp add: pin_requests_def)
next
  case (ok s2)
  from register_all_world[OF ok(4), of svc] show ?thesis by (simp add: pin_requests_def)
qed

lemma init_ok:
  assumes "init e s w = (Inr u, s', w')"
  shows "initialized s' \<and> (ipfs s = None \<longrightarrow> initialized s \<or> ipfs s' \<noteq> None)"
  using assms
proof (cases rule: init_cases)
  case (ok s2)
  from register_all_store[OF ok(4)] ok(5) show ?thesis by simp
qed simp_all

lemma step_task_AwaitLs:
  "step_task e c svc AwaitLs w =
     (if fails e (calls w) (RemoteLs c svc)
      then (Rejected (BackendFailure svc), w\<lparr>failed := failed w @ [RemoteLs c svc]\<rparr>)
      else if (svc, c) \<in> set (pins w)
           then (Fulfilled, w\<lparr>console := console w @ [LogAlreadyPinned c]\<rparr>)
           else (AwaitAdd, w\<lparr>calls := calls w @ [RemoteAdd c svc False]\<rparr>))"
  by (simp add: isPinned_def)

declare step_task.simps(1) [simp del]
declare step_task_AwaitLs [simp]

lemma step_task_frame:
  "step_task e c svc t w = (t', w') \<Longrightarrow>
     nodes w' = nodes w \<and> services w' = services w \<and> blocks w' = blocks w
     \<and> setup_calls w' = setup_calls w \<and> set (pins w) \<subseteq> set (pins w')"
  by (cases t) (auto simp: setup_calls_def split: if_splits)

lemma deliver_frame:
  "deliver e c i ps w = (ps', w') \<Longrightarrow>
     nodes w' = nodes w \<and> services w' = services w \<and> blocks w' = blocks w
     \<and> setup_calls w' = setup_calls w \<and> set (pins w) \<subseteq> set (pins w')
     \<and> map fst ps' = map fst ps"
  using step_task_frame[of e c "fst (ps ! i)" "snd (ps ! i)" w]
  by (auto simp: deliver_def map_update list_update_same_conv split: if_splits prod.splits) 

lemma run_frame:
  "run e c evs ps w = (ps', w') \<Longrightarrow>
     nodes w' = nodes w \<and> services w' = services w \<and> blocks w' = blocks w
     \<and> setup_calls w' = setup_calls w \<and> set (pins w) \<subseteq> set (pins w')
     \<and> map fst ps' = map fst ps"
proof (induction evs arbitrary: ps w)
  case Nil
  then show ?case by simp
next
  case (Cons i evs)
  obtain ps1 w1 where d: "deliver e c i ps w = (ps1, w1)" by (cases "deliver e c i ps w")
  with Cons.prems have r: "run e c evs ps1 w1 = (ps', w')" by simp
  from Cons.IH[OF r] deliver_frame[OF d] show ?case by auto
qed

text \<open>Promise.all settles after a prefix of the schedule.\<close>
lemma await_all_run:
  "await_all e c sched ps w = Some (r, ps', w') \<Longrightarrow>
     \<exists>n. run e c (take n sched) ps w = (ps', w')"
proof (induction sched arbitrary: ps w)
  case Nil
  then show ?case by (auto split: option.splits if_splits)
next
  case (Cons i evs)
  show ?case
  proof (cases "first_rejection ps = None \<and> \<not> all_fulfilled ps")
    case True
    obtain ps1 w1 where d: "deliver e c i ps w = (ps1, w1)" by (cases "deliver e c i ps w")
    with True Cons.prems have "await_all e c evs ps1 w1 = Some (r, ps', w')" by simp
    from Cons.IH[OF this] obtain n where "run e c (take n evs) ps1 w1 = (ps', w')" ..
    with d have "run e c (take (Suc n) (i # evs)) ps w = (ps', w')" by simp
    then show ?thesis ..
  next
    case False
    with Cons.prems have "(ps', w') = (ps, w)" by (auto split: option.splits if_splits)
    then have "run e c (take 0 (i # evs)) ps w = (ps', w')" by simp
    then show ?thesis ..
  qed
qed

lemma await_all_result:
  "await_all e c sched ps w = Some (r, ps', w') \<Longrightarrow>
     (case r of Inl err \<Rightarrow> first_rejection ps' = Some err
              | Inr u \<Rightarrow> first_rejection ps' = None \<and> all_fulfilled ps')"
proof (induction sched arbitrary: ps w)
  case Nil
  then show ?case by (auto split: option.splits if_splits)
next
  case (Cons i evs)
  then show ?case by (auto split: option.splits if_splits prod.splits)
qed

lemma start_all_frame:
  "start_all s c svcs w = (ps, w') \<Longrightarrow>
     nodes w' = nodes w \<and> services w' = services w \<and> blocks w' = blocks w
     \<and> setup_calls w' = setup_calls w \<and> pins w' = pins w \<and> console w' = console w
     \<and> pin_requests svc w' = pin_requests svc w
     \<and> map fst ps = svcs \<and> (\<forall>p\<in>set ps. snd p \<noteq> Fulfilled \<and> snd p \<noteq> AwaitAdd)"
proof (induction svcs arbitrary: w ps w')
  case Nil
  then show ?case by simp
next
  case (Cons a svcs)
  obtain t w1 where p: "pinIfUnpinned_start s c a w = (t, w1)" by (cases "pinIfUnpinned_start s c a w")
  obtain ps2 w2 where r: "start_all s c svcs w1 = (ps2, w2)" by (cases "start_all s c svcs w1")
  from p have f: "nodes w1 = nodes w \<and> services w1 = services w \<and> blocks w1 = blocks w
     \<and> setup_calls w1 = setup_calls w \<and> pins w1 = pins w \<and> console w1 = console w
     \<and> pin_requests svc w1 = pin_requests svc w \<and> t \<noteq> Fulfilled \<and> t \<noteq> AwaitAdd"
    by (auto simp: pinIfUnpinned_start_def setup_calls_def pin_requests_def split: option.splits)
  from Cons.prems p r have "ps = (a, t) # ps2" "w' = w2" by auto
  with Cons.IH[OF r] f show ?case by auto
qed

lemma startsWith_iff: "startsWith u p \<longleftrightarrow> (\<exists>x. u = p @ x)"
  unfolding startsWith_def
  by (metis append_eq_conv_conj append_take_drop_id)

lemma pin_via_init:
  assumes "init e s w = (Inr u, s1, w1)"
  shows "pin e sched c s w = pin e sched c s1 w1"
proof -
  from init_ok[OF assms] have "initialized s1" by simp
  then have "init e s1 w1 = (Inr (), s1, w1)" by (rule init_initialized)
  with assms show ?thesis by (simp add: pin_def)
qed

lemma pin_unfold_none:
  "initialized s \<Longrightarrow> pinningServices s = [] \<Longrightarrow>
   pin e sched c s w = Some (Inr (), s, w\<lparr>console := console w @ [LogNoServices c]\<rparr>, [])"
  by (simp add: pin_def init_initialized)

lemma pin_unfold_fan:
  "initialized s \<Longrightarrow> pinningServices s \<noteq> [] \<Longrightarrow> start_all s c (pinningServices s) w = (ps0, w0) \<Longrightarrow>
   pin e sched c s w =
     (case await_all e c sched ps0 w0 of
        None \<Rightarrow> None
      | Some (ra, ps1, w3) \<Rightarrow>
          Some (Inr (), s,
                w3\<lparr>console := console w3 @ [case ra of Inl err \<Rightarrow> LogPinError err | Inr u \<Rightarrow> LogPinned c]\<rparr>,
                ps1))"
  by (simp add: pin_def init_initialized split: option.split sum.split)

lemma pin_initialized:
  assumes "initialized s" "pin e sched c s w = Some (r, s', w', ps)"
  obtains (none) "pinningServices s = []" "r = Inr ()" "s' = s" "ps = []"
      "w' = w\<lparr>console := console w @ [LogNoServices c]\<rparr>"
  | (fan) ps0 w0 ra w3 where "pinningServices s \<noteq> []"
      "start_all s c (pinningServices s) w = (ps0, w0)"
      "await_all e c sched ps0 w0 = Some (ra, ps, w3)" "r = Inr ()" "s' = s"
      "w' = w3\<lparr>console := console w3 @ [case ra of Inl err \<Rightarrow> LogPinError err | Inr u \<Rightarrow> LogPinned c]\<rparr>"
proof (cases "pinningServices s = []")
  case True
  from pin_unfold_none[OF assms(1) True, of e sched c w] assms(2)
  have "(r, s', w', ps) = (Inr (), s, w\<lparr>console := console w @ [LogNoServices c]\<rparr>, [])"
    by (simp only: option.inject)
  then have "r = Inr ()" "s' = s" "ps = []" "w' = w\<lparr>console := console w @ [LogNoServices c]\<rparr>"
    by (simp_all only: prod.inject)
  with True show ?thesis by (rule none)
next
  case False
  obtain ps0 w0 where st: "start_all s c (pinningServices s) w = (ps0, w0)"
    by (cases "start_all s c (pinningServices s) w")
  note u = pin_unfold_fan[OF assms(1) False st, of e sched]
  show ?thesis
  proof (cases "await_all e c sched ps0 w0")
    case None
    with u assms(2) show ?thesis by (simp only: option.case option.distinct)
  next
    case (Some a)
    obtain ra ps1 w3 where a: "a = (ra, ps1, w3)" by (cases a)
    from u assms(2) Some a
    have "(r, s', w', ps) = (Inr (), s,
            w3\<lparr>console := console w3 @ [case ra of Inl err \<Rightarrow> LogPinError err | Inr u \<Rightarrow> LogPinned c]\<rparr>, ps1)"
      by (simp only: option.case prod.case option.inject)
    then have eqs: "r = Inr ()" "s' = s" "ps1 = ps"
      "w' = w3\<lparr>console := console w3 @ [case ra of Inl err \<Rightarrow> LogPinError err | Inr u \<Rightarrow> LogPinned c]\<rparr>"
      by (simp_all only: prod.inject)
    from Some a eqs(3) have "await_all e c sched ps0 w0 = Some (ra, ps, w3)" by simp
    with False st show ?thesis using eqs(1,2,4) by (rule fan)
  qed
qed

lemma pin_initialized_frame:
  assumes "initialized s" "pin e sched c s w = Some (r, s', w', ps)"
  shows "r = Inr () \<and> s' = s \<and> nodes w' = nodes w \<and> services w' = services w
         \<and> blocks w' = blocks w \<and> setup_calls w' = setup_calls w"
  using assms
proof (cases rule: pin_initialized)
  case none
  then show ?thesis by (simp add: setup_calls_def)
next
  case (fan ps0 w0 ra w3)
  from await_all_run[OF fan(3)] obtain n where "run e c (take n sched) ps0 w0 = (ps, w3)" ..
  from run_frame[OF this] start_all_frame[OF fan(2)] fan(4,5,6) show ?thesis
    by (simp add: setup_calls_def)
qed

subsection \<open>Adding an asset\<close>

text \<open>How a call of addAsset that returns went.\<close>
lemma addAsset_cases:
  assumes "addAsset e sched f d s w = Some (r, s', w')"
  obtains (initfail) err where "init e s w = (Inl err, s', w')" "r = Inl err"
  | (readfail) s1 w1 err where "init e s w = (Inr (), s1, w1)"
      "read_asset e f d w1 = (Inl err, w')" "r = Inl err" "s' = s1"
  | (addfail) s1 w1 b w2 err where "init e s w = (Inr (), s1, w1)"
      "read_asset e f d w1 = (Inr b, w2)" "node_add e f b s1 w2 = (Inl err, w')" "r = Inl err" "s' = s1"
  | (pinned) s1 w1 b w2 k w3 r2 ps where "init e s w = (Inr (), s1, w1)"
      "read_asset e f d w1 = (Inr b, w2)" "node_add e f b s1 w2 = (Inr k, w3)"
      "pin e sched (toString k) s1 (w3\<lparr>console := console w3 @ [LogAdded (toString k)]\<rparr>)
         = Some (r2, s', w', ps)"
      "r = (case r2 of Inl err \<Rightarrow> Inl err | Inr u \<Rightarrow> Inr k)"
proof -
  obtain r1 s1 w1 where i: "init e s w = (r1, s1, w1)" by (cases "init e s w")
  show ?thesis
  proof (cases r1)
    case (Inl err)
    with assms i have "r = Inl err" "s' = s1" "w' = w1" by (simp_all add: addAsset_def)
    with i Inl initfail show ?thesis by blast
  next
    case (Inr u)
    with i have i': "init e s w = (Inr (), s1, w1)" by simp
    obtain rd w2 where rd: "read_asset e f d w1 = (rd, w2)" by (cases "read_asset e f d w1")
    show ?thesis
    proof (cases rd)
      case (Inl err)
      with assms i' rd have "r = Inl err" "s' = s1" "w' = w2" by (simp_all add: addAsset_def)
      with i' rd Inl readfail show ?thesis by blast
    next
      case (Inr b)
      obtain ra w3 where na: "node_add e f b s1 w2 = (ra, w3)" by (cases "node_add e f b s1 w2")
      show ?thesis
      proof (cases ra)
        case (Inl err)
        with assms i' rd Inr na have "r = Inl err" "s' = s1" "w' = w3" by (simp_all add: addAsset_def)
        with i' rd Inr na Inl addfail show ?thesis by blast
      next
        case k: (Inr k)
        let ?w4 = "w3\<lparr>console := console w3 @ [LogAdded (toString k)]\<rparr>"
        from assms i' rd Inr na k
        have c: "(case pin e sched (toString k) s1 ?w4 of
                 None \<Rightarrow> None
               | Some (Inl err, s2, w4, ps) \<Rightarrow> Some (Inl err, s2, w4)
               | Some (Inr u, s2, w4, ps) \<Rightarrow> Some (Inr k, s2, w4))
               = Some (r, s', w')"
          by (simp add: addAsset_def)
        then obtain r2 s2 w5 ps where p: "pin e sched (toString k) s1 ?w4 = Some (r2, s2, w5, ps)"
          by (cases "pin e sched (toString k) s1 ?w4") auto
        with c have "r = (case r2 of Inl err \<Rightarrow> Inl err | Inr u \<Rightarrow> Inr k)" "s2 = s'" "w5 = w'"
          by (cases r2; simp)+
        with p i' rd Inr na k pinned show ?thesis by blast
      qed
    qed
  qed
qed

lemma read_asset_frame:
  "read_asset e f d w = (r, w') \<Longrightarrow>
     nodes w' = nodes w \<and> services w' = services w \<and> blocks w' = blocks w
     \<and> setup_calls w' = setup_calls w \<and> pins w' = pins w"
  by (cases d; cases "files e f") (auto simp: read_asset_def Let_def setup_calls_def)

lemma node_add_frame:
  "node_add e f b s w = (r, w') \<Longrightarrow>
     nodes w' = nodes w \<and> services w' = services w
     \<and> setup_calls w' = setup_calls w \<and> pins w' = pins w"
  by (cases "ipfs s") (auto simp: node_add_def setup_calls_def split: if_splits)

lemma node_add_ok:
  "node_add e f b s w = (Inr k, w') \<Longrightarrow>
     ipfs s \<noteq> None \<and> k = CidObject (cid_of e b) \<and> blocks w' = (toString k, b) # blocks w"
  by (cases "ipfs s") (auto simp: node_add_def split: if_splits)

text \<open>The text of the identifier that addAsset returns reads the content back.\<close>

lemma addAsset_text_roundtrip:
  assumes "addAsset e sched f (Some b) s w = Some (Inr k, s', w')"
      and "\<not> startsWith (toString k) ''ipfs://''"
      and "\<not> fails e (calls w') (NodeCat (toString k))"
  shows "fst (get e (toString k) s' w') = Inr b"
  using assms(1)
proof (cases rule: addAsset_cases)
  case (pinned s1 w1 b' w2 k' w3 r2 ps)
  from pinned(2) have b': "b' = b" by (simp add: read_asset_def)
  from pinned(5) have k': "k' = k" by (cases r2) simp_all
  from node_add_ok[OF pinned(3)] b' k'
  have h: "ipfs s1 \<noteq> None" and blk: "blocks w3 = (toString k, b) # blocks w2" by simp_all
  from init_ok[OF pinned(1)] have "initialized s1" by simp
  from pin_initialized_frame[OF this pinned(4)] k'
  have "s' = s1" and "blocks w' = (toString k, b) # blocks w2" using blk by simp_all
  with h assms(2,3) show ?thesis
    by (auto simp: get_def node_cat_def)
qed simp_all

subsection \<open>Reading from a store that was made\<close>

lemma MakeAssetStorage_ok:
  assumes "MakeAssetStorage e cfg w0 = (Inr s, w1)"
  shows "initialized s \<and> ipfs s \<noteq> None"
proof -
  obtain r s1 w2 where i: "init e (constructor cfg) w0 = (r, s1, w2)"
    by (cases "init e (constructor cfg) w0")
  with assms obtain u where "r = Inr u" "s1 = s" by (cases r) (simp_all add: MakeAssetStorage_def)
  with i have "init e (constructor cfg) w0 = (Inr u, s, w2)" by simp
  from init_ok[OF this] show ?thesis by (simp add: constructor_def)
qed

lemma node_cat_handle:
  "ipfs s \<noteq> None \<Longrightarrow>
     fst (node_cat e k s w) \<noteq> Inl TypeError \<and> calls (snd (node_cat e k s w)) = calls w @ [NodeCat k]"
  by (cases "ipfs s") (auto simp: node_cat_def Let_def split: option.splits)

subsection \<open>The fan-out returns\<close>

lemma first_rejection_None_iff:
  "first_rejection ps = None \<longleftrightarrow> (\<forall>p\<in>set ps. \<forall>err. snd p \<noteq> Rejected err)"
  by (induction ps rule: first_rejection.induct) auto

lemma first_rejection_Some:
  "first_rejection ps = Some err \<Longrightarrow> \<exists>p\<in>set ps. snd p = Rejected err"
  by (induction ps rule: first_rejection.induct) auto

lemma settled_all_fulfilled:
  assumes "first_rejection ps = None" "\<forall>p\<in>set ps. pending_steps (snd p) = 0"
  shows "all_fulfilled ps"
  unfolding all_fulfilled_def list_all_iff
proof
  fix p assume p: "p \<in> set ps"
  with assms(1) have "\<forall>err. snd p \<noteq> Rejected err" by (simp add: first_rejection_None_iff)
  moreover from assms(2) p have "pending_steps (snd p) = 0" by simp
  ultimately show "snd p = Fulfilled" by (cases "snd p") simp_all
qed

lemma step_task_pending:
  "step_task e c svc t w = (t', w') \<Longrightarrow> pending_steps t' \<le> pending_steps t - 1"
  by (cases t) (auto split: if_splits)

lemma deliver_pending:
  assumes "deliver e c i ps w = (ps', w')"
  shows "length ps' = length ps"
    and "j < length ps \<Longrightarrow>
           pending_steps (snd (ps' ! j)) \<le> pending_steps (snd (ps ! j)) - (if j = i then 1 else 0)"
proof -
  show "length ps' = length ps" using assms by (auto simp: deliver_def split: if_splits prod.splits)
  assume j: "j < length ps"
  show "pending_steps (snd (ps' ! j)) \<le> pending_steps (snd (ps ! j)) - (if j = i then 1 else 0)"
  proof (cases "i < length ps")
    case False
    with assms j show ?thesis by (auto simp: deliver_def)
  next
    case True
    obtain t w1 where st: "step_task e c (fst (ps ! i)) (snd (ps ! i)) w = (t, w1)"
      by (cases "step_task e c (fst (ps ! i)) (snd (ps ! i)) w")
    with assms True have ps': "ps' = ps[i := (fst (ps ! i), t)]" by (simp add: deliver_def)
    show ?thesis
    proof (cases "j = i")
      case True
      with ps' j step_task_pending[OF st] show ?thesis by simp
    next
      case False
      with ps' j show ?thesis by simp
    qed
  qed
qed

lemma await_all_fair:
  "\<forall>j<length ps. pending_steps (snd (ps ! j)) \<le> count_list sched j \<Longrightarrow>
     await_all e c sched ps w \<noteq> None"
proof (induction sched arbitrary: ps w)
  case Nil
  have "\<forall>p\<in>set ps. pending_steps (snd p) = 0"
  proof
    fix p assume "p \<in> set ps"
    then obtain j where "j < length ps" "ps ! j = p" by (auto simp: in_set_conv_nth)
    with Nil.prems show "pending_steps (snd p) = 0" by auto
  qed
  then have "first_rejection ps = None \<Longrightarrow> all_fulfilled ps" by (simp add: settled_all_fulfilled)
  then show ?case by (auto split: option.splits)
next
  case (Cons i evs)
  show ?case
  proof (cases "first_rejection ps = None \<and> \<not> all_fulfilled ps")
    case False
    then show ?thesis by (auto split: option.splits)
  next
    case True
    obtain ps1 w1 where d: "deliver e c i ps w = (ps1, w1)" by (cases "deliver e c i ps w")
    have "\<forall>j<length ps1. pending_steps (snd (ps1 ! j)) \<le> count_list evs j"
    proof (intro allI impI)
      fix j assume "j < length ps1"
      with deliver_pending[OF d] have j: "j < length ps"
        and le: "pending_steps (snd (ps1 ! j)) \<le> pending_steps (snd (ps ! j)) - (if j = i then 1 else 0)"
        by simp_all
      from Cons.prems j have "pending_steps (snd (ps ! j)) \<le> count_list (i # evs) j" by simp
      with le show "pending_steps (snd (ps1 ! j)) \<le> count_list evs j"
        by (cases "j = i") simp_all
    qed
    from Cons.IH[OF this] have "await_all e c evs ps1 w1 \<noteq> None" .
    with True d show ?thesis by simp
  qed
qed

lemma start_all_pending:
  "start_all s c svcs w = (ps, w') \<Longrightarrow> \<forall>p\<in>set ps. pending_steps (snd p) \<le> 2"
proof (induction svcs arbitrary: w ps w')
  case Nil
  then show ?case by simp
next
  case (Cons a svcs)
  obtain t w1 where p: "pinIfUnpinned_start s c a w = (t, w1)" by (cases "pinIfUnpinned_start s c a w")
  obtain ps2 w2 where r: "start_all s c svcs w1 = (ps2, w2)" by (cases "start_all s c svcs w1")
  from p have "pending_steps t \<le> 2" by (auto simp: pinIfUnpinned_start_def split: option.splits)
  moreover from Cons.prems p r have "ps = (a, t) # ps2" by auto
  ultimately show ?case using Cons.IH[OF r] by auto
qed

lemma pin_returns:
  assumes "initialized s" "fair (length (pinningServices s)) sched"
  shows "pin e sched c s w \<noteq> None"
proof (cases "pinningServices s = []")
  case True
  with assms(1) show ?thesis by (simp add: pin_unfold_none)
next
  case False
  obtain ps0 w0 where st: "start_all s c (pinningServices s) w = (ps0, w0)"
    by (cases "start_all s c (pinningServices s) w")
  from start_all_frame[OF st, of undefined] have len: "length ps0 = length (pinningServices s)"
    by (metis length_map)
  have "\<forall>j<length ps0. pending_steps (snd (ps0 ! j)) \<le> count_list sched j"
  proof (intro allI impI)
    fix j assume j: "j < length ps0"
    with start_all_pending[OF st] have "pending_steps (snd (ps0 ! j)) \<le> 2" by simp
    moreover from assms(2) j len have "2 \<le> count_list sched j"
      by (simp add: fair_def list_all_iff)
    ultimately show "pending_steps (snd (ps0 ! j)) \<le> count_list sched j" by simp
  qed
  from await_all_fair[OF this, of e c w0] obtain a where "await_all e c sched ps0 w0 = Some a" by auto
  with pin_unfold_fan[OF assms(1) False st, of e sched] show ?thesis
    by (cases a) simp
qed

subsection \<open>Pin requests\<close>

lemma step_task_not_AwaitLs: "step_task e c svc t w = (t', w') \<Longrightarrow> t' \<noteq> AwaitLs"
  by (cases t) (auto split: if_splits)

lemma step_task_pin_requests:
  "step_task e c svc t w = (t', w') \<Longrightarrow> (svc', c) \<in> set (pins w) \<or> svc \<noteq> svc' \<or> t \<noteq> AwaitLs \<Longrightarrow>
     pin_requests svc' w' = pin_requests svc' w"
  by (cases t) (auto simp: pin_requests_def split: if_splits)

lemma deliver_quiet:
  assumes d: "deliver e c i ps w = (ps', w')"
    and q: "(svc, c) \<in> set (pins w) \<or> (\<forall>p\<in>set ps. fst p = svc \<longrightarrow> snd p \<noteq> AwaitLs)"
  shows "pin_requests svc w' = pin_requests svc w
       \<and> ((svc, c) \<in> set (pins w') \<or> (\<forall>p\<in>set ps'. fst p = svc \<longrightarrow> snd p \<noteq> AwaitLs))"
proof (cases "i < length ps")
  case False
  with d q show ?thesis by (auto simp: deliver_def)
next
  case True
  obtain t w1 where st: "step_task e c (fst (ps ! i)) (snd (ps ! i)) w = (t, w1)"
    by (cases "step_task e c (fst (ps ! i)) (snd (ps ! i)) w")
  with d True have eq: "ps' = ps[i := (fst (ps ! i), t)]" "w' = w1" by (simp_all add: deliver_def)
  from True have mem: "ps ! i \<in> set ps" by simp
  from q mem have "(svc, c) \<in> set (pins w) \<or> fst (ps ! i) \<noteq> svc \<or> snd (ps ! i) \<noteq> AwaitLs" by auto
  from step_task_pin_requests[OF st this] eq have 1: "pin_requests svc w' = pin_requests svc w" by simp
  have 2: "(svc, c) \<in> set (pins w') \<or> (\<forall>p\<in>set ps'. fst p = svc \<longrightarrow> snd p \<noteq> AwaitLs)"
  proof (cases "(svc, c) \<in> set (pins w)")
    case True
    with step_task_frame[OF st] eq show ?thesis by auto
  next
    case False
    with q have a: "\<forall>p\<in>set ps. fst p = svc \<longrightarrow> snd p \<noteq> AwaitLs" by simp
    have "\<forall>p\<in>set ps'. fst p = svc \<longrightarrow> snd p \<noteq> AwaitLs"
    proof
      fix p assume "p \<in> set ps'"
      with eq have "p = (fst (ps ! i), t) \<or> p \<in> set ps"
        using set_update_subset_insert[of ps i "(fst (ps ! i), t)"] by auto
      with a step_task_not_AwaitLs[OF st] show "fst p = svc \<longrightarrow> snd p \<noteq> AwaitLs" by auto
    qed
    then show ?thesis ..
  qed
  from 1 2 show ?thesis ..
qed

lemma run_quiet:
  "run e c evs ps w = (ps', w') \<Longrightarrow>
   (svc, c) \<in> set (pins w) \<or> (\<forall>p\<in>set ps. fst p = svc \<longrightarrow> snd p \<noteq> AwaitLs) \<Longrightarrow>
   pin_requests svc w' = pin_requests svc w
     \<and> ((svc, c) \<in> set (pins w') \<or> (\<forall>p\<in>set ps'. fst p = svc \<longrightarrow> snd p \<noteq> AwaitLs))"
proof (induction evs arbitrary: ps w)
  case Nil
  then show ?case by simp
next
  case (Cons i evs)
  obtain ps1 w1 where d: "deliver e c i ps w = (ps1, w1)" by (cases "deliver e c i ps w")
  with Cons.prems(1) have r: "run e c evs ps1 w1 = (ps', w')" by simp
  from deliver_quiet[OF d Cons.prems(2)] Cons.IH[OF r] show ?case by simp
qed

text \<open>A fulfilled promise means the service holds the pin.\<close>

lemma step_task_fulfilled:
  "step_task e c svc t w = (Fulfilled, w') \<Longrightarrow> t \<noteq> Fulfilled \<Longrightarrow> (svc, c) \<in> set (pins w')"
  by (cases t) (auto split: if_splits)

lemma deliver_fulfilled:
  assumes d: "deliver e c i ps w = (ps', w')"
    and g: "\<forall>p\<in>set ps. snd p = Fulfilled \<longrightarrow> (fst p, c) \<in> set (pins w)"
  shows "\<forall>p\<in>set ps'. snd p = Fulfilled \<longrightarrow> (fst p, c) \<in> set (pins w')"
proof (cases "i < length ps")
  case False
  with d g show ?thesis by (auto simp: deliver_def)
next
  case True
  obtain t w1 where st: "step_task e c (fst (ps ! i)) (snd (ps ! i)) w = (t, w1)"
    by (cases "step_task e c (fst (ps ! i)) (snd (ps ! i)) w")
  with d True have eq: "ps' = ps[i := (fst (ps ! i), t)]" "w' = w1" by (simp_all add: deliver_def)
  from True have mem: "ps ! i \<in> set ps" by simp
  from step_task_frame[OF st] have sub: "set (pins w) \<subseteq> set (pins w1)" by simp
  show ?thesis
  proof
    fix p assume "p \<in> set ps'"
    with eq have "p = (fst (ps ! i), t) \<or> p \<in> set ps"
      using set_update_subset_insert[of ps i "(fst (ps ! i), t)"] by auto
    then show "snd p = Fulfilled \<longrightarrow> (fst p, c) \<in> set (pins w')"
    proof
      assume p: "p = (fst (ps ! i), t)"
      show ?thesis
      proof
        assume "snd p = Fulfilled"
        with p have t: "t = Fulfilled" by simp
        show "(fst p, c) \<in> set (pins w')"
        proof (cases "snd (ps ! i) = Fulfilled")
          case True
          with g mem sub p eq show ?thesis by auto
        next
          case False
          from step_task_fulfilled[OF st[unfolded t] False] p eq show ?thesis by simp
        qed
      qed
    next
      assume "p \<in> set ps"
      with g sub eq show ?thesis by auto
    qed
  qed
qed

lemma run_fulfilled:
  "run e c evs ps w = (ps', w') \<Longrightarrow>
   \<forall>p\<in>set ps. snd p = Fulfilled \<longrightarrow> (fst p, c) \<in> set (pins w) \<Longrightarrow>
   \<forall>p\<in>set ps'. snd p = Fulfilled \<longrightarrow> (fst p, c) \<in> set (pins w')"
proof (induction evs arbitrary: ps w)
  case Nil
  then show ?case by simp
next
  case (Cons i evs)
  obtain ps1 w1 where d: "deliver e c i ps w = (ps1, w1)" by (cases "deliver e c i ps w")
  with Cons.prems(1) have r: "run e c evs ps1 w1 = (ps', w')" by simp
  from Cons.IH[OF r deliver_fulfilled[OF d Cons.prems(2)]] show ?case .
qed

lemma pin_initialized_quiet:
  assumes i: "initialized s"
    and q: "(svc, c) \<in> set (pins w) \<or> svc \<notin> set (pinningServices s)"
    and p: "pin e sched c s w = Some (r, s', w', ps)"
  shows "pin_requests svc w' = pin_requests svc w
       \<and> ((svc, c) \<in> set (pins w') \<or> (\<forall>p\<in>set ps. fst p = svc \<longrightarrow> snd p \<noteq> AwaitLs))"
  using i p
proof (cases rule: pin_initialized)
  case none
  then show ?thesis by (simp add: pin_requests_def)
next
  case (fan ps0 w0 ra w3)
  note f = start_all_frame[OF fan(2), of svc]
  from f have names: "fst ` set ps0 = set (pinningServices s)" by (metis set_map)
  from q f names have q0: "(svc, c) \<in> set (pins w0) \<or> (\<forall>p\<in>set ps0. fst p = svc \<longrightarrow> snd p \<noteq> AwaitLs)"
    by auto
  from await_all_run[OF fan(3)] obtain n where "run e c (take n sched) ps0 w0 = (ps, w3)" ..
  from run_quiet[OF this q0] f fan(6) show ?thesis by (simp add: pin_requests_def)
qed

lemma pin_quiet:
  assumes q: "(svc, c) \<in> set (pins w)"
    and p: "pin e sched c s w = Some (r, s', w', ps)"
  shows "pin_requests svc w' = pin_requests svc w
       \<and> ((svc, c) \<in> set (pins w') \<or> (\<forall>p\<in>set ps. fst p = svc \<longrightarrow> snd p \<noteq> AwaitLs))"
proof -
  obtain r1 s1 w1 where i: "init e s w = (r1, s1, w1)" by (cases "init e s w")
  note iw = init_world[OF i, of svc]
  show ?thesis
  proof (cases r1)
    case (Inl err)
    with i p have "w' = w1" "ps = []" by (simp_all add: pin_def)
    with iw show ?thesis by simp
  next
    case (Inr u)
    with i have i': "init e s w = (Inr u, s1, w1)" by simp
    from init_ok[OF i'] have is1: "initialized s1" by simp
    from pin_via_init[OF i', of sched c] p have p1: "pin e sched c s1 w1 = Some (r, s', w', ps)" by simp
    from q iw have "(svc, c) \<in> set (pins w1) \<or> svc \<notin> set (pinningServices s1)" by simp
    from pin_initialized_quiet[OF is1 this p1] iw show ?thesis by simp
  qed
qed

lemma pin_fulfilled_pinned:
  assumes i: "initialized s" and p: "pin e sched c s w = Some (r, s', w', ps)"
    and a: "all_fulfilled ps"
  shows "\<forall>svc\<in>set (pinningServices s). (svc, c) \<in> set (pins w')"
  using i p
proof (cases rule: pin_initialized)
  case none
  then show ?thesis by simp
next
  case (fan ps0 w0 ra w3)
  note f = start_all_frame[OF fan(2), of undefined]
  from f have g0: "\<forall>p\<in>set ps0. snd p = Fulfilled \<longrightarrow> (fst p, c) \<in> set (pins w0)" by simp
  from await_all_run[OF fan(3)] obtain n where r: "run e c (take n sched) ps0 w0 = (ps, w3)" ..
  from run_fulfilled[OF r g0] a have "\<forall>p\<in>set ps. (fst p, c) \<in> set (pins w3)"
    by (simp add: all_fulfilled_def list_all_iff)
  moreover from run_frame[OF r] f have "fst ` set ps = set (pinningServices s)" by (metis set_map)
  ultimately have "\<forall>svc\<in>set (pinningServices s). (svc, c) \<in> set (pins w3)"
    by (metis (no_types, lifting) imageE)
  with fan(6) show ?thesis by simp
qed

subsection \<open>Concrete runs\<close>

lemma addAsset_cat:
  "addAsset env_ok [0, 1, 0, 1] ''cat.png'' (Some [1, 2, 3]) (constructor cfgAB) world0
     = Some (Inr (CidObject (cid_of env_ok [1, 2, 3])), storeAB, world_cat)"
  by (simp add: addAsset_def init_def constructor_def cfgAB_def env_ok_def world0_def storeAB_def
      register_call_def resolve_key_def read_asset_def node_add_def pin_def pinIfUnpinned_start_def
      deliver_def all_fulfilled_def world_cat_def)

lemmas run_defs = pin_def init_def storeAB_def cfgAB_def env_ok_def world0_def world_init_def
  pinIfUnpinned_start_def deliver_def all_fulfilled_def

lemma pin_X_first:
  "pin env_ok [0, 1, 0, 1] ''X'' storeAB world_init
     = Some (Inr (), storeAB, world_X, [(''A'', Fulfilled), (''B'', Fulfilled)])"
  by (simp add: run_defs world_X_def)

lemma pin_X_second:
  "pin env_ok [0, 1] ''X'' storeAB world_X
     = Some (Inr (), storeAB, world_X2, [(''A'', Fulfilled), (''B'', Fulfilled)])"
  by (simp add: run_defs world_X_def world_X2_def)

lemma pin_X_A_fails:
  "pin env_lsA [0, 1, 0, 1] ''X'' storeAB world_init
     = Some (Inr (), storeAB, world_A_failed,
             [(''A'', Rejected (BackendFailure ''A'')), (''B'', AwaitLs)])"
  by (simp add: run_defs env_lsA_def world_A_failed_def)

lemma fair_2: "fair (length (pinningServices storeAB)) [0, 1, 0, 1]"
  by (simp add: fair_def storeAB_def upt_rec)

lemma pin_X_A_fails_late:
  "pin env_lsA [1, 0] ''X'' storeAB world_init
     = Some (Inr (), storeAB, world_B_adding,
             [(''A'', Rejected (BackendFailure ''A'')), (''B'', AwaitAdd)])"
  by (simp add: run_defs env_lsA_def world_B_adding_def)

lemma addAsset_cat_again:
  "addAsset env_ok [0, 1, 0, 1] ''cat.png'' (Some [1, 2, 3]) storeAB world_init
     = Some (Inr (CidObject (cid_of env_ok [1, 2, 3])), storeAB, world_cat)"
  by (simp add: addAsset_def read_asset_def node_add_def run_defs world_cat_def)

lemma init_regA:
  "init env_regA (constructor cfgAB) world0 = (Inl (RegistrationFailure ''A''), store_regA, world_regA)"
  by (simp add: init_def constructor_def cfgAB_def env_regA_def env_ok_def world0_def
      register_call_def resolve_key_def store_regA_def world_regA_def)

lemma init_AB:
  "init env_ok (constructor cfgAB) world0 = (Inr (), storeAB, world_init)"
  by (simp add: init_def constructor_def cfgAB_def env_ok_def world0_def storeAB_def world_init_def
        register_call_def resolve_key_def)

lemma MakeAssetStorage_AB:
  "MakeAssetStorage env_ok cfgAB world0 = (Inr storeAB, world_init)"
  by (simp add: MakeAssetStorage_def init_AB)

lemma pin_X_B_add_fails:
  "pin env_addB [0, 1, 0, 1] ''X'' storeAB world_init
     = Some (Inr (), storeAB, world_B_failed,
             [(''A'', Fulfilled), (''B'', Rejected (BackendFailure ''B''))])"
  by (simp add: run_defs env_addB_def world_B_failed_def)

subsection \<open>One promise per service\<close>

lemma step_task_inv_same:
  "step_task e c svc t w = (t', w') \<Longrightarrow> task_inv c R0 P0 svc t w \<Longrightarrow> task_inv c R0 P0 svc t' w'"
  by (cases t) (auto simp: task_inv_def pin_requests_def split: if_splits)

lemma step_task_inv_other:
  "step_task e c svc2 t2 w = (t2', w') \<Longrightarrow> svc2 \<noteq> svc \<Longrightarrow>
     task_inv c R0 P0 svc t w \<Longrightarrow> task_inv c R0 P0 svc t w'"
  by (cases t2; cases t) (auto simp: task_inv_def pin_requests_def split: if_splits)

lemma step_task_ls_requests:
  "step_task e c svc t w = (t', w') \<Longrightarrow> ls_requests svc' w' = ls_requests svc' w"
  by (cases t) (auto simp: ls_requests_def split: if_splits)

lemma deliver_task_inv:
  assumes d: "deliver e c i ps w = (ps', w')"
    and k: "k < length ps" and dist: "distinct (map fst ps)"
    and inv: "task_inv c R0 P0 (fst (ps ! k)) (snd (ps ! k)) w"
  shows "task_inv c R0 P0 (fst (ps ! k)) (snd (ps' ! k)) w' \<and> ls_requests svc' w' = ls_requests svc' w"
proof (cases "i < length ps")
  case False
  with d inv show ?thesis by (simp add: deliver_def)
next
  case True
  obtain t w1 where st: "step_task e c (fst (ps ! i)) (snd (ps ! i)) w = (t, w1)"
    by (cases "step_task e c (fst (ps ! i)) (snd (ps ! i)) w")
  with d True have eq: "ps' = ps[i := (fst (ps ! i), t)]" "w' = w1" by (simp_all add: deliver_def)
  from step_task_ls_requests[OF st] eq have ls: "ls_requests svc' w' = ls_requests svc' w" by simp
  show ?thesis
  proof (cases "i = k")
    case True
    with eq k have "snd (ps' ! k) = t" by simp
    with step_task_inv_same[OF st[unfolded True] inv] eq ls show ?thesis by simp
  next
    case False
    with dist True k have "fst (ps ! i) \<noteq> fst (ps ! k)"
      by (metis length_map nth_eq_iff_index_eq nth_map)
    from step_task_inv_other[OF st this inv] False eq ls show ?thesis by simp
  qed
qed

lemma run_task_inv:
  "run e c evs ps w = (ps', w') \<Longrightarrow> k < length ps \<Longrightarrow> distinct (map fst ps) \<Longrightarrow>
   task_inv c R0 P0 (fst (ps ! k)) (snd (ps ! k)) w \<Longrightarrow>
   task_inv c R0 P0 (fst (ps ! k)) (snd (ps' ! k)) w' \<and> ls_requests svc' w' = ls_requests svc' w"
proof (induction evs arbitrary: ps w)
  case Nil
  then show ?case by simp
next
  case (Cons i evs)
  obtain ps1 w1 where d: "deliver e c i ps w = (ps1, w1)" by (cases "deliver e c i ps w")
  with Cons.prems(1) have r: "run e c evs ps1 w1 = (ps', w')" by simp
  from deliver_frame[OF d] have m: "map fst ps1 = map fst ps" by simp
  then have len: "length ps1 = length ps" by (metis length_map)
  from m Cons.prems(2) len have fk: "fst (ps1 ! k) = fst (ps ! k)" by (metis nth_map)
  note di = deliver_task_inv[OF d Cons.prems(2,3,4), of svc']
  from Cons.IH[OF r] Cons.prems(2,3) len m fk di show ?case by simp
qed

lemma start_all_tasks:
  "start_all s c svcs w = (ps, w') \<Longrightarrow> ipfs s = Some h \<Longrightarrow>
     (\<forall>p\<in>set ps. snd p = AwaitLs)
     \<and> ls_requests svc w' = ls_requests svc w @ filter (is_ls_request svc) (map (RemoteLs c) svcs)"
proof (induction svcs arbitrary: w ps w')
  case Nil
  then show ?case by simp
next
  case (Cons a svcs)
  obtain ps2 w2 where r: "start_all s c svcs (w\<lparr>calls := calls w @ [RemoteLs c a]\<rparr>) = (ps2, w2)"
    by (cases "start_all s c svcs (w\<lparr>calls := calls w @ [RemoteLs c a]\<rparr>)")
  with Cons.prems have "ps = (a, AwaitLs) # ps2" "w' = w2"
    by (simp_all add: pinIfUnpinned_start_def)
  with Cons.IH[OF r Cons.prems(2)] show ?case by (simp add: ls_requests_def)
qed

lemma distinct_ls_filter:
  "distinct svcs \<Longrightarrow> svc \<in> set svcs \<Longrightarrow>
     filter (is_ls_request svc) (map (RemoteLs c) svcs) = [RemoteLs c svc]"
  by (induction svcs) (auto simp: filter_empty_conv)

subsection \<open>The registration loop\<close>

lemma register_all_trace:
  "register_all e cfgs s w = (r, s', w') \<Longrightarrow>
     \<exists>n\<le>length cfgs.
        pinningServices s' = pinningServices s @ map svc_name (take n cfgs)
      \<and> (r = Inr () \<longrightarrow> n = length cfgs \<and> calls w' = calls w @ map register_call cfgs)
      \<and> (r \<noteq> Inr () \<longrightarrow> n < length cfgs
            \<and> r = Inl (RegistrationFailure (svc_name (cfgs ! n)))
            \<and> calls w' = calls w @ map register_call (take (Suc n) cfgs))"
proof (induction cfgs arbitrary: s w)
  case Nil
  then show ?case by auto
next
  case (Cons svc rest)
  show ?case
  proof (cases "fails e (calls w) (register_call svc)")
    case True
    with Cons.prems have "r = Inl (RegistrationFailure (svc_name svc))" "s' = s"
      "w' = w\<lparr>calls := calls w @ [register_call svc]\<rparr>"
      by (simp_all add: Let_def)
    then have "0 \<le> length (svc # rest) \<and>
        pinningServices s' = pinningServices s @ map svc_name (take 0 (svc # rest))
      \<and> (r = Inr () \<longrightarrow> 0 = length (svc # rest) \<and> calls w' = calls w @ map register_call (svc # rest))
      \<and> (r \<noteq> Inr () \<longrightarrow> 0 < length (svc # rest)
            \<and> r = Inl (RegistrationFailure (svc_name ((svc # rest) ! 0)))
            \<and> calls w' = calls w @ map register_call (take (Suc 0) (svc # rest)))"
      by simp
    then show ?thesis by blast
  next
    case False
    let ?s1 = "s\<lparr>pinningServices := pinningServices s @ [svc_name svc]\<rparr>"
    let ?w1 = "w\<lparr>calls := calls w @ [register_call svc],
                  services := services w @
                    [(svc_name svc, svc_endpoint svc, resolve_key (svc_accessToken svc))]\<rparr>"
    from False Cons.prems have "register_all e rest ?s1 ?w1 = (r, s', w')" by (simp add: Let_def)
    from Cons.IH[OF this] obtain n where n: "n \<le> length rest"
      "pinningServices s' = pinningServices ?s1 @ map svc_name (take n rest)"
      "r = Inr () \<longrightarrow> n = length rest \<and> calls w' = calls ?w1 @ map register_call rest"
      "r \<noteq> Inr () \<longrightarrow> n < length rest
            \<and> r = Inl (RegistrationFailure (svc_name (rest ! n)))
            \<and> calls w' = calls ?w1 @ map register_call (take (Suc n) rest)"
      by blast
    then have "Suc n \<le> length (svc # rest) \<and>
        pinningServices s' = pinningServices s @ map svc_name (take (Suc n) (svc # rest))
      \<and> (r = Inr () \<longrightarrow> Suc n = length (svc # rest) \<and> calls w' = calls w @ map register_call (svc # rest))
      \<and> (r \<noteq> Inr () \<longrightarrow> Suc n < length (svc # rest)
            \<and> r = Inl (RegistrationFailure (svc_name ((svc # rest) ! Suc n)))
            \<and> calls w' = calls w @ map register_call (take (Suc (Suc n)) (svc # rest)))"
      by simp
    then show ?thesis by blast
  qed
qed

subsection \<open>Failed requests of the promises\<close>

lemma first_rejection_update_rejected:
  "first_rejection ps = None \<Longrightarrow> i < length ps \<Longrightarrow>
     first_rejection (ps[i := (svc, Rejected err)]) = Some err"
proof (induction ps arbitrary: i)
  case Nil
  then show ?case by simp
next
  case (Cons p ps)
  obtain a t where p: "p = (a, t)" by (cases p)
  from Cons.prems(1) p have t: "\<forall>x. t \<noteq> Rejected x" and r: "first_rejection ps = None"
    by (cases t; simp)+
  show ?case
  proof (cases i)
    case 0
    then show ?thesis by simp
  next
    case (Suc j)
    with Cons.prems(2) have "j < length ps" by simp
    from Cons.IH[OF r this] Suc p t show ?thesis by (cases t) simp_all
  qed
qed

lemma first_rejection_update_clean:
  assumes "first_rejection ps = None" "\<forall>err. t \<noteq> Rejected err"
  shows "first_rejection (ps[i := (svc, t)]) = None"
proof -
  have "\<forall>p\<in>set (ps[i := (svc, t)]). \<forall>err. snd p \<noteq> Rejected err"
  proof
    fix p assume "p \<in> set (ps[i := (svc, t)])"
    then have "p = (svc, t) \<or> p \<in> set ps"
      using set_update_subset_insert[of ps i "(svc, t)"] by auto
    with assms show "\<forall>err. snd p \<noteq> Rejected err" by (auto simp: first_rejection_None_iff)
  qed
  then show ?thesis by (simp add: first_rejection_None_iff)
qed

lemma step_task_failed:
  "failed (snd (step_task e c svc AwaitLs w))
     = (if fails e (calls w) (RemoteLs c svc) then failed w @ [RemoteLs c svc] else failed w)"
  "failed (snd (step_task e c svc AwaitAdd w))
     = (if fails e (calls w) (RemoteAdd c svc False) then failed w @ [RemoteAdd c svc False]
        else failed w)"
  by simp_all

lemma step_task_outcome:
  assumes "step_task e c svc t w = (t', w')" "\<forall>err. t \<noteq> Rejected err"
  shows "((\<forall>err. t' \<noteq> Rejected err) \<and> failed w' = failed w)
       \<or> (\<exists>rq. t' = Rejected (BackendFailure svc) \<and> failed w' = failed w @ [rq]
              \<and> (rq = RemoteLs c svc \<or> rq = RemoteAdd c svc False))"
  using assms by (cases t) (auto split: if_splits)

lemma deliver_outcome:
  assumes d: "deliver e c i ps w = (ps1, w1)" and clean: "first_rejection ps = None"
  shows "(first_rejection ps1 = None \<and> failed w1 = failed w)
       \<or> (\<exists>svc rq. first_rejection ps1 = Some (BackendFailure svc) \<and> failed w1 = failed w @ [rq]
              \<and> (rq = RemoteLs c svc \<or> rq = RemoteAdd c svc False))"
proof (cases "i < length ps")
  case False
  with d clean show ?thesis by (simp add: deliver_def)
next
  case True
  obtain t w2 where st: "step_task e c (fst (ps ! i)) (snd (ps ! i)) w = (t, w2)"
    by (cases "step_task e c (fst (ps ! i)) (snd (ps ! i)) w")
  with d True have eq: "ps1 = ps[i := (fst (ps ! i), t)]" "w1 = w2" by (simp_all add: deliver_def)
  from True have "ps ! i \<in> set ps" by simp
  with clean have "\<forall>err. snd (ps ! i) \<noteq> Rejected err" by (simp add: first_rejection_None_iff)
  from step_task_outcome[OF st this] show ?thesis
  proof
    assume "(\<forall>err. t \<noteq> Rejected err) \<and> failed w2 = failed w"
    with first_rejection_update_clean[OF clean, of t i "fst (ps ! i)"] eq show ?thesis by simp
  next
    assume "\<exists>rq. t = Rejected (BackendFailure (fst (ps ! i))) \<and> failed w2 = failed w @ [rq]
              \<and> (rq = RemoteLs c (fst (ps ! i)) \<or> rq = RemoteAdd c (fst (ps ! i)) False)"
    then obtain rq where rq: "t = Rejected (BackendFailure (fst (ps ! i)))"
      "failed w2 = failed w @ [rq]"
      "rq = RemoteLs c (fst (ps ! i)) \<or> rq = RemoteAdd c (fst (ps ! i)) False" by blast
    from first_rejection_update_rejected[OF clean True, of "fst (ps ! i)" "BackendFailure (fst (ps ! i))"]
      eq rq(1)
    have "first_rejection ps1 = Some (BackendFailure (fst (ps ! i)))" by simp
    with rq(2,3) eq show ?thesis by blast
  qed
qed

lemma await_all_rejected:
  "first_rejection ps = Some err \<Longrightarrow> await_all e c sched ps w = Some (Inl err, ps, w)"
  by (cases sched) simp_all

lemma await_all_outcome:
  "first_rejection ps = None \<Longrightarrow> await_all e c sched ps w = Some (ra, ps', w') \<Longrightarrow>
     (ra = Inr () \<and> failed w' = failed w \<and> all_fulfilled ps')
   \<or> (\<exists>svc rq. ra = Inl (BackendFailure svc) \<and> failed w' = failed w @ [rq]
          \<and> (rq = RemoteLs c svc \<or> rq = RemoteAdd c svc False))"
proof (induction sched arbitrary: ps w)
  case Nil
  then show ?case by (auto split: if_splits)
next
  case (Cons i evs)
  show ?case
  proof (cases "all_fulfilled ps")
    case True
    with Cons.prems show ?thesis by auto
  next
    case False
    obtain ps1 w1 where d: "deliver e c i ps w = (ps1, w1)" by (cases "deliver e c i ps w")
    with False Cons.prems have a: "await_all e c evs ps1 w1 = Some (ra, ps', w')" by simp
    from deliver_outcome[OF d Cons.prems(1)] show ?thesis
    proof
      assume c: "first_rejection ps1 = None \<and> failed w1 = failed w"
      with Cons.IH[OF _ a] show ?thesis by simp
    next
      assume "\<exists>svc rq. first_rejection ps1 = Some (BackendFailure svc) \<and> failed w1 = failed w @ [rq]
              \<and> (rq = RemoteLs c svc \<or> rq = RemoteAdd c svc False)"
      then obtain svc rq where r: "first_rejection ps1 = Some (BackendFailure svc)"
        "failed w1 = failed w @ [rq]" "rq = RemoteLs c svc \<or> rq = RemoteAdd c svc False" by blast
      from await_all_rejected[OF r(1), of e c evs w1] a
      have "ra = Inl (BackendFailure svc)" "w' = w1" by simp_all
      with r(2,3) show ?thesis by blast
    qed
  qed
qed

lemma start_all_failed:
  "start_all s c svcs w = (ps, w') \<Longrightarrow> failed w' = failed w"
proof (induction svcs arbitrary: w ps w')
  case Nil
  then show ?case by simp
next
  case (Cons a svcs)
  obtain t w1 where p: "pinIfUnpinned_start s c a w = (t, w1)" by (cases "pinIfUnpinned_start s c a w")
  obtain ps2 w2 where r: "start_all s c svcs w1 = (ps2, w2)" by (cases "start_all s c svcs w1")
  from p have "failed w1 = failed w" by (auto simp: pinIfUnpinned_start_def split: option.splits)
  moreover from Cons.prems p r have "w' = w2" by auto
  ultimately show ?case using Cons.IH[OF r] by simp
qed

lemma pin_outcome:
  assumes i: "initialized s" and h: "ipfs s \<noteq> None"
    and p: "pin e sched c s w = Some (r, s', w', ps)"
  shows "(failed w' = failed w \<and> all_fulfilled ps)
       \<or> (\<exists>svc rq. failed w' = failed w @ [rq]
              \<and> (rq = RemoteLs c svc \<or> rq = RemoteAdd c svc False)
              \<and> first_rejection ps = Some (BackendFailure svc)
              \<and> console w' \<noteq> [] \<and> last (console w') = LogPinError (BackendFailure svc))"
  using i p
proof (cases rule: pin_initialized)
  case none
  then show ?thesis by (simp add: all_fulfilled_def)
next
  case (fan ps0 w0 ra w3)
  from h obtain hd where hd: "ipfs s = Some hd" by auto
  from start_all_tasks[OF fan(2) hd, of undefined] have "first_rejection ps0 = None"
    by (simp add: first_rejection_None_iff)
  from await_all_outcome[OF this fan(3)] start_all_failed[OF fan(2)]
  have "(ra = Inr () \<and> failed w3 = failed w \<and> all_fulfilled ps)
   \<or> (\<exists>svc rq. ra = Inl (BackendFailure svc) \<and> failed w3 = failed w @ [rq]
          \<and> (rq = RemoteLs c svc \<or> rq = RemoteAdd c svc False))" by simp
  then show ?thesis
  proof
    assume "ra = Inr () \<and> failed w3 = failed w \<and> all_fulfilled ps"
    with fan(6) show ?thesis by simp
  next
    assume "\<exists>svc rq. ra = Inl (BackendFailure svc) \<and> failed w3 = failed w @ [rq]
          \<and> (rq = RemoteLs c svc \<or> rq = RemoteAdd c svc False)"
    then obtain svc rq where r: "ra = Inl (BackendFailure svc)" "failed w3 = failed w @ [rq]"
      "rq = RemoteLs c svc \<or> rq = RemoteAdd c svc False" by blast
    from await_all_result[OF fan(3)] r(1) have "first_rejection ps = Some (BackendFailure svc)"
      by simp
    with r fan(6) have "failed w' = failed w @ [rq]
              \<and> (rq = RemoteLs c svc \<or> rq = RemoteAdd c svc False)
              \<and> first_rejection ps = Some (BackendFailure svc)
              \<and> console w' \<noteq> [] \<and> last (console w') = LogPinError (BackendFailure svc)"
      by simp
    then show ?thesis by blast
  qed
qed

section \<open>The claims\<close>

subsection \<open>Reading\<close>




text \<open>
  Claim C5: for every bare identifier \<open>x\<close> (one that does not itself begin with the
  scheme prefix), \<^verbatim>\<open>get("ipfs://" + x)\<close> and \<^verbatim>\<open>get(x)\<close> do the same thing: both read the
  content of \<open>x\<close> from the node, with the same result and the same request. The prefix is
  stripped when present, and a string without it is taken whole as the identifier.
\<close>

theorem get_uri_tolerant:
  "\<not> startsWith x ''ipfs://'' \<Longrightarrow>
     get e (''ipfs://'' @ x) s w = get e x s w \<and> get e x s w = node_cat e x s w"
  by (simp add: get_def startsWith_def)

theorem get_uri_tolerant_witness:
  "\<not> startsWith ''QmX'' ''ipfs://''
   \<and> get env_ok ''ipfs://QmX'' storeAB (world_init\<lparr>blocks := [(''QmX'', [1, 2, 3])]\<rparr>)
       = get env_ok ''QmX'' storeAB (world_init\<lparr>blocks := [(''QmX'', [1, 2, 3])]\<rparr>)
   \<and> fst (get env_ok ''ipfs://QmX'' storeAB (world_init\<lparr>blocks := [(''QmX'', [1, 2, 3])]\<rparr>)) = Inr [1, 2, 3]"
  using get_uri_tolerant[of "''QmX''" env_ok storeAB "world_init\<lparr>blocks := [(''QmX'', [1, 2, 3])]\<rparr>"]
  by (simp add: startsWith_def node_cat_def env_ok_def storeAB_def world0_def world_init_def)

text \<open>
  Claim C10: \<^verbatim>\<open>get\<close> strips the literal prefix \<^verbatim>\<open>ipfs://\<close> only, at the start of its
  argument only, and once only. A string with another scheme is given to the node as it
  is, \<^verbatim>\<open>get("ipfs://ipfs://X")\<close> reads the identifier \<^verbatim>\<open>ipfs://X\<close>, and every string that
  does not begin with the prefix (wherever else it may contain it) is read whole.
\<close>

theorem get_strips_prefix_once:
  "get e (''ipfs://'' @ x) s w = node_cat e x s w
   \<and> get e (''https://'' @ x) s w = node_cat e (''https://'' @ x) s w
   \<and> get e (''ipfs://ipfs://'' @ x) s w = node_cat e (''ipfs://'' @ x) s w
   \<and> (\<forall>u. \<not> (\<exists>y. u = ''ipfs://'' @ y) \<longrightarrow> get e u s w = node_cat e u s w)"
  by (simp add: get_def startsWith_iff)

theorem get_strips_prefix_once_witness:
  "\<not> (\<exists>y. ''Qmipfs://X'' = ''ipfs://'' @ y)
   \<and> calls (snd (get env_ok ''Qmipfs://X'' storeAB world_init)) = calls world_init @ [NodeCat ''Qmipfs://X'']
   \<and> calls (snd (get env_ok ''ipfs://ipfs://X'' storeAB world_init)) = calls world_init @ [NodeCat ''ipfs://X'']
   \<and> calls (snd (get env_ok ''https://X'' storeAB world_init)) = calls world_init @ [NodeCat ''https://X'']"
  using get_strips_prefix_once[of env_ok "''X''" storeAB world_init]
  by (simp add: node_cat_def env_ok_def storeAB_def world0_def world_init_def)

subsection \<open>Pinning\<close>

text \<open>
  Claim C6: with no registered backend, \<^verbatim>\<open>pin\<close> completes normally. Once \<^verbatim>\<open>init\<close> has
  succeeded (at once on an initialized store) and the list of registered services is
  empty, \<^verbatim>\<open>pin\<close> returns under every schedule without an error and without a request: it
  only prints that no pinning service is configured.
\<close>

theorem pin_without_services:
  assumes "init e s w = (Inr (), s1, w1)" and "pinningServices s1 = []"
  shows "pin e sched c s w = Some (Inr (), s1, w1\<lparr>console := console w1 @ [LogNoServices c]\<rparr>, [])"
  using assms by (simp add: pin_def)

theorem pin_without_services_witness:
  "init env_ok (constructor []) world0
     = (Inr (), store_none, world0\<lparr>nodes := 1, calls := [NodeCreate]\<rparr>)
   \<and> pinningServices store_none = []
   \<and> pin env_ok [] ''X'' (constructor []) world0
     = Some (Inr (), store_none,
             world0\<lparr>nodes := 1, calls := [NodeCreate], console := [LogNoServices ''X'']\<rparr>, [])"
proof -
  have i: "init env_ok (constructor []) world0
     = (Inr (), store_none, world0\<lparr>nodes := 1, calls := [NodeCreate]\<rparr>)"
    by (simp add: init_def constructor_def env_ok_def world0_def store_none_def)
  have p: "pinningServices store_none = []" by (simp add: store_none_def)
  from pin_without_services[OF i p, of "[]" "''X''"] i p show ?thesis by (simp add: world0_def)
qed

subsection \<open>Adding and reading back\<close>

text \<open>
  Claim C1: \<^verbatim>\<open>get\<close> of the identifier that \<^verbatim>\<open>addAsset(name, b)\<close> returned yields \<open>b\<close>. The
  JSDoc of \<^verbatim>\<open>addAsset\<close> declares a \<^verbatim>\<open>Promise<string>\<close> that "can be used to fetch the file",
  but \<^verbatim>\<open>addAsset\<close> returns \<^verbatim>\<open>asset.cid\<close>, the CID object, as it is, and \<^verbatim>\<open>get\<close> starts with
  \<^verbatim>\<open>cidOrURI.startsWith\<close>. On a store made by \<^verbatim>\<open>MakeAssetStorage\<close> with a faithful node,
  \<^verbatim>\<open>addAsset("cat.png", [1, 2, 3])\<close> returns its identifier and \<^verbatim>\<open>get\<close> of what it returned
  fails with a TypeError, without a request to the node. \<^verbatim>\<open>get\<close> of the text of that
  identifier yields the content.
\<close>

theorem get_of_addAsset_result:
  "MakeAssetStorage env_ok cfgAB world0 = (Inr storeAB, world_init)
   \<and> addAsset env_ok [0, 1, 0, 1] ''cat.png'' (Some [1, 2, 3]) storeAB world_init
       = Some (Inr (CidObject (cid_of env_ok [1, 2, 3])), storeAB, world_cat)
   \<and> get_value env_ok (JCid (CidObject (cid_of env_ok [1, 2, 3]))) storeAB world_cat
       = (Inl TypeError, world_cat)
   \<and> fst (get_value env_ok (JString (toString (CidObject (cid_of env_ok [1, 2, 3]))))
             storeAB world_cat) = Inr [1, 2, 3]"
proof -
  have b: "\<not> startsWith (toString (CidObject (cid_of env_ok [1, 2, 3]))) ''ipfs://''"
    by (simp add: startsWith_def env_ok_def)
  have c: "\<not> fails env_ok (calls world_cat)
               (NodeCat (toString (CidObject (cid_of env_ok [1, 2, 3]))))"
    by (simp add: env_ok_def)
  have t: "get_value env_ok (JCid (CidObject (cid_of env_ok [1, 2, 3]))) storeAB world_cat
       = (Inl TypeError, world_cat)"
    by (simp add: get_value_def)
  from addAsset_text_roundtrip[OF addAsset_cat_again b c] MakeAssetStorage_AB addAsset_cat_again t
  show ?thesis by (simp add: get_value_def)
qed

subsection \<open>Initialization\<close>

text \<open>
  Claim C9: \<^verbatim>\<open>init\<close> is idempotent. On a store whose initialization has completed,
  \<^verbatim>\<open>init\<close> returns at once and changes nothing; \<^verbatim>\<open>pin\<close> and \<^verbatim>\<open>addAsset\<close>, the operations
  that call it, leave the store (its node handle and its list of registered services) as
  it was, create no node and register no service.
\<close>

theorem init_idempotent:
  assumes "initialized s"
  shows "init e s w = (Inr (), s, w)
    \<and> (\<forall>r s' w' ps. pin e sched c s w = Some (r, s', w', ps) \<longrightarrow>
          s' = s \<and> nodes w' = nodes w \<and> services w' = services w \<and> setup_calls w' = setup_calls w)
    \<and> (\<forall>r s' w'. addAsset e sched f d s w = Some (r, s', w') \<longrightarrow>
          s' = s \<and> nodes w' = nodes w \<and> services w' = services w \<and> setup_calls w' = setup_calls w)"
proof (intro conjI allI impI)
  show "init e s w = (Inr (), s, w)" using assms by (rule init_initialized)
next
  fix r s' w' ps assume "pin e sched c s w = Some (r, s', w', ps)"
  from pin_initialized_frame[OF assms this]
  show "s' = s" "nodes w' = nodes w" "services w' = services w" "setup_calls w' = setup_calls w"
    by simp_all
next
  fix r s' w' assume a: "addAsset e sched f d s w = Some (r, s', w')"
  note i = init_initialized[OF assms, of e w]
  have "s' = s \<and> nodes w' = nodes w \<and> services w' = services w \<and> setup_calls w' = setup_calls w"
    using a
  proof (cases rule: addAsset_cases)
    case (initfail err)
    with i show ?thesis by simp
  next
    case (readfail s1 w1 err)
    with i read_asset_frame[OF readfail(2)] show ?thesis by simp
  next
    case (addfail s1 w1 b w2 err)
    with i read_asset_frame[OF addfail(2)] node_add_frame[OF addfail(3)] show ?thesis by simp
  next
    case (pinned s1 w1 b w2 k w3 r2 ps)
    from pinned(1) i have e1: "s1 = s" "w1 = w" by simp_all
    from pin_initialized_frame[OF assms pinned(4)[unfolded e1]]
      read_asset_frame[OF pinned(2)] node_add_frame[OF pinned(3)] e1
    show ?thesis by (simp add: setup_calls_def)
  qed
  then show "s' = s" "nodes w' = nodes w" "services w' = services w" "setup_calls w' = setup_calls w"
    by simp_all
qed

theorem init_idempotent_witness:
  "initialized storeAB
   \<and> init env_ok storeAB world_X = (Inr (), storeAB, world_X)
   \<and> pin env_ok [0, 1] ''X'' storeAB world_X
        = Some (Inr (), storeAB, world_X2, [(''A'', Fulfilled), (''B'', Fulfilled)])
   \<and> setup_calls world_X2 = setup_calls world_X
   \<and> nodes world_X2 = nodes world_X \<and> services world_X2 = services world_X
   \<and> addAsset env_ok [0, 1, 0, 1] ''cat.png'' (Some [1, 2, 3]) storeAB world_init
        = Some (Inr (CidObject (cid_of env_ok [1, 2, 3])), storeAB, world_cat)
   \<and> setup_calls world_cat = setup_calls world_init
   \<and> nodes world_cat = nodes world_init \<and> services world_cat = services world_init"
proof -
  have i: "initialized storeAB" by (simp add: storeAB_def)
  from init_idempotent[OF i, of env_ok world_X "[0, 1]" "''X''" "''cat.png''" None] pin_X_second
  have 1: "init env_ok storeAB world_X = (Inr (), storeAB, world_X)
     \<and> setup_calls world_X2 = setup_calls world_X
     \<and> nodes world_X2 = nodes world_X \<and> services world_X2 = services world_X" by simp
  from init_idempotent[OF i, of env_ok world_init "[0, 1, 0, 1]" "''X''" "''cat.png''" "Some [1, 2, 3]"]
    addAsset_cat_again
  have 2: "setup_calls world_cat = setup_calls world_init
     \<and> nodes world_cat = nodes world_init \<and> services world_cat = services world_init" by simp
  from i 1 pin_X_second addAsset_cat_again 2 show ?thesis by simp
qed

subsection \<open>Failures and repetition of pin\<close>



text \<open>
  Claim C3: \<^verbatim>\<open>pin\<close> sends no pin request to a backend that already holds the pin. If the
  service \<open>svc\<close> lists \<open>c\<close> as pinned when \<^verbatim>\<open>pin(c)\<close> is called, the pin requests sent
  to \<open>svc\<close> are the same after the call as before, and stay so however the promises left
  pending continue. In particular, after a first \<^verbatim>\<open>pin(c)\<close> that returned with all its
  promises fulfilled, a second \<^verbatim>\<open>pin(c)\<close> sends no pin request to any service.
\<close>

theorem pin_idempotent:
  "((svc, c) \<in> set (pins w) \<longrightarrow>
      (\<forall>r s' w' ps. pin e sched c s w = Some (r, s', w', ps) \<longrightarrow>
         pin_requests svc w' = pin_requests svc w
         \<and> (\<forall>evs. pin_requests svc (snd (run e c evs ps w')) = pin_requests svc w)))
   \<and> (\<forall>s1 w1 ps1 r2 s2 w2 ps2.
         pin e sched c s w = Some (Inr (), s1, w1, ps1) \<and> all_fulfilled ps1
         \<and> pin e sched2 c s1 w1 = Some (r2, s2, w2, ps2)
         \<longrightarrow> (\<forall>b. pin_requests b w2 = pin_requests b w1))"
proof (intro conjI allI impI)
  fix r s' w' ps
  assume q: "(svc, c) \<in> set (pins w)" and p: "pin e sched c s w = Some (r, s', w', ps)"
  note pq = pin_quiet[OF q p]
  then show "pin_requests svc w' = pin_requests svc w" by simp
  fix evs
  obtain ps2 w2 where r: "run e c evs ps w' = (ps2, w2)" by (cases "run e c evs ps w'")
  from pq have "(svc, c) \<in> set (pins w') \<or> (\<forall>p\<in>set ps. fst p = svc \<longrightarrow> snd p \<noteq> AwaitLs)" by simp
  from run_quiet[OF r this] pq r show "pin_requests svc (snd (run e c evs ps w')) = pin_requests svc w"
    by simp
next
  fix s1 w1 ps1 r2 s2 w2 ps2 b
  assume a: "pin e sched c s w = Some (Inr (), s1, w1, ps1) \<and> all_fulfilled ps1
         \<and> pin e sched2 c s1 w1 = Some (r2, s2, w2, ps2)"
  obtain r0 s0 w0 where i: "init e s w = (r0, s0, w0)" by (cases "init e s w")
  have "\<exists>u. r0 = Inr u"
  proof (cases r0)
    case (Inl err)
    with i a show ?thesis by (simp add: pin_def)
  qed simp
  then obtain u where i': "init e s w = (Inr u, s0, w0)" using i by auto
  from init_ok[OF i'] have is0: "initialized s0" by simp
  from pin_via_init[OF i', of sched c] a have p0: "pin e sched c s0 w0 = Some (Inr (), s1, w1, ps1)"
    by simp
  from pin_initialized_frame[OF is0 p0] have s1: "s1 = s0" by simp
  from pin_fulfilled_pinned[OF is0 p0] a
  have "(b, c) \<in> set (pins w1) \<or> b \<notin> set (pinningServices s1)" using s1 by auto
  from pin_initialized_quiet[OF is0[folded s1] this] a
  show "pin_requests b w2 = pin_requests b w1" by blast
qed

theorem pin_idempotent_witness:
  "(''A'', ''X'') \<in> set (pins world_X)
   \<and> pin env_ok [0, 1, 0, 1] ''X'' storeAB world_init
        = Some (Inr (), storeAB, world_X, [(''A'', Fulfilled), (''B'', Fulfilled)])
   \<and> all_fulfilled [(''A'', Fulfilled), (''B'', Fulfilled)]
   \<and> pin env_ok [0, 1] ''X'' storeAB world_X
        = Some (Inr (), storeAB, world_X2, [(''A'', Fulfilled), (''B'', Fulfilled)])
   \<and> pin_requests ''A'' world_X2 = pin_requests ''A'' world_X
   \<and> (\<forall>b. pin_requests b world_X2 = pin_requests b world_X)"
proof -
  have m: "(''A'', ''X'') \<in> set (pins world_X)" by (simp add: world_X_def)
  have a: "all_fulfilled [(''A'', Fulfilled), (''B'', Fulfilled)]" by (simp add: all_fulfilled_def)
  from pin_idempotent[of "''A''" "''X''" world_X env_ok "[0, 1]" storeAB "[0, 1]"] m pin_X_second
  have 1: "pin_requests ''A'' world_X2 = pin_requests ''A'' world_X" by blast
  from pin_idempotent[of "''A''" "''X''" world_init env_ok "[0, 1, 0, 1]" storeAB "[0, 1]"]
    pin_X_first a pin_X_second
  have 2: "\<forall>b. pin_requests b world_X2 = pin_requests b world_X" by blast
  from m pin_X_first a pin_X_second 1 2 show ?thesis by simp
qed

subsection \<open>The fan-out of pin\<close>

text \<open>
  Claim C2, as stated, says that \<^verbatim>\<open>pin\<close> returns only after the operation of every backend
  has settled. \<^verbatim>\<open>Promise.all\<close> rejects with the first rejection: when the listing of
  service A fails, \<^verbatim>\<open>pin\<close> prints the error and returns while the promise of service B
  still waits for its listing. B does not hold the pin and no pin request has been sent
  to it.
\<close>

theorem pin_returns_before_all_settled:
  "pin env_lsA [0, 1, 0, 1] ''X'' storeAB world_init
     = Some (Inr (), storeAB, world_A_failed,
             [(''A'', Rejected (BackendFailure ''A'')), (''B'', AwaitLs)])
   \<and> \<not> settled AwaitLs
   \<and> (''B'', ''X'') \<notin> set (pins world_init)
   \<and> pin_requests ''B'' world_A_failed = []"
  using pin_X_A_fails
  by (simp add: settled_def world0_def world_init_def world_A_failed_def pin_requests_def)

text \<open>
  Claim C2, amended. On an initialized store with distinct registered backends,
  \<^verbatim>\<open>pin(c)\<close> starts one promise per backend and sends each backend exactly one listing
  request for \<open>c\<close>. A backend is sent at most one pin request, a foreground one for \<open>c\<close>:
  none while its listing is pending, exactly one once its listing came back empty.
  \<^verbatim>\<open>pin\<close> returns when all promises are fulfilled or as soon as one is rejected, and it
  does return under every schedule that completes two requests of every backend. When
  it returns with all promises fulfilled, every backend that did not hold the pin has
  been sent exactly one foreground pin request and every backend that held it none.
\<close>

theorem pin_fan_out:
  assumes i: "initialized s" and h: "ipfs s \<noteq> None"
    and dist: "distinct (pinningServices s)" and mem: "svc \<in> set (pinningServices s)"
  shows "(fair (length (pinningServices s)) sched \<longrightarrow> pin e sched c s w \<noteq> None)
    \<and> (\<forall>r s' w' ps. pin e sched c s w = Some (r, s', w', ps) \<longrightarrow>
          map fst ps = pinningServices s
        \<and> ls_requests svc w' = ls_requests svc w @ [RemoteLs c svc]
        \<and> (pin_requests svc w' = pin_requests svc w
             \<or> pin_requests svc w' = pin_requests svc w @ [RemoteAdd c svc False])
        \<and> ((svc, AwaitLs) \<in> set ps \<longrightarrow> pin_requests svc w' = pin_requests svc w)
        \<and> ((svc, AwaitAdd) \<in> set ps \<longrightarrow>
              pin_requests svc w' = pin_requests svc w @ [RemoteAdd c svc False])
        \<and> (all_fulfilled ps \<or> (\<exists>err. first_rejection ps = Some err))
        \<and> (all_fulfilled ps \<longrightarrow>
              pin_requests svc w' =
                (if (svc, c) \<in> set (pins w) then pin_requests svc w
                 else pin_requests svc w @ [RemoteAdd c svc False])))"
proof (intro conjI allI impI)
  assume "fair (length (pinningServices s)) sched"
  with i show "pin e sched c s w \<noteq> None" by (rule pin_returns)
next
  fix r s' w' ps assume p: "pin e sched c s w = Some (r, s', w', ps)"
  let ?R0 = "pin_requests svc w" and ?P0 = "(svc, c) \<in> set (pins w)"
  let ?rq = "RemoteAdd c svc False"
  from mem have ne: "pinningServices s \<noteq> []" by auto
  from h obtain hd where hd: "ipfs s = Some hd" by auto
  have main: "map fst ps = pinningServices s
      \<and> ls_requests svc w' = ls_requests svc w @ [RemoteLs c svc]
      \<and> (all_fulfilled ps \<or> (\<exists>err. first_rejection ps = Some err))
      \<and> (\<exists>k<length ps. fst (ps ! k) = svc \<and> task_inv c ?R0 ?P0 svc (snd (ps ! k)) w')"
    using i p
  proof (cases rule: pin_initialized)
    case none
    with ne show ?thesis by simp
  next
    case (fan ps0 w0 ra w3)
    note f = start_all_frame[OF fan(2), of svc]
    note t = start_all_tasks[OF fan(2) hd, of svc]
    from f have m0: "map fst ps0 = pinningServices s" by simp
    then have len0: "length ps0 = length (pinningServices s)" by (metis length_map)
    from mem obtain k where k: "k < length (pinningServices s)" "pinningServices s ! k = svc"
      by (auto simp: in_set_conv_nth)
    with m0 len0 have fk: "fst (ps0 ! k) = svc" by (metis nth_map)
    from k len0 have k0: "k < length ps0" by simp
    from t k0 have "snd (ps0 ! k) = AwaitLs" by simp
    with f fk have inv0: "task_inv c ?R0 ?P0 (fst (ps0 ! k)) (snd (ps0 ! k)) w0"
      by (simp add: task_inv_def)
    from dist m0 have d0: "distinct (map fst ps0)" by simp
    from await_all_run[OF fan(3)] obtain n where r: "run e c (take n sched) ps0 w0 = (ps, w3)" ..
    note ri = run_task_inv[OF r k0 d0 inv0, of svc]
    from run_frame[OF r] m0 have m: "map fst ps = pinningServices s" by simp
    then have len: "length ps = length (pinningServices s)" by (metis length_map)
    from m k len have fk': "fst (ps ! k) = svc" by (metis nth_map)
    from ri fk have "task_inv c ?R0 ?P0 svc (snd (ps ! k)) w3" by simp
    with fan(6) have inv: "task_inv c ?R0 ?P0 svc (snd (ps ! k)) w'"
      by (cases "snd (ps ! k)") (simp_all add: task_inv_def pin_requests_def)
    from ri t distinct_ls_filter[OF dist mem, of c] fan(6)
    have ls: "ls_requests svc w' = ls_requests svc w @ [RemoteLs c svc]"
      by (simp add: ls_requests_def)
    from await_all_result[OF fan(3)]
    have st: "all_fulfilled ps \<or> (\<exists>err. first_rejection ps = Some err)" by (cases ra) simp_all
    from m ls st inv fk' k len show ?thesis by auto
  qed
  then obtain k where k: "k < length ps" "fst (ps ! k) = svc"
    and inv: "task_inv c ?R0 ?P0 svc (snd (ps ! k)) w'"
    and m: "map fst ps = pinningServices s" by auto
  from main show "map fst ps = pinningServices s"
    and "ls_requests svc w' = ls_requests svc w @ [RemoteLs c svc]"
    and "all_fulfilled ps \<or> (\<exists>err. first_rejection ps = Some err)" by simp_all
  from inv show "pin_requests svc w' = ?R0 \<or> pin_requests svc w' = ?R0 @ [?rq]"
    by (cases "snd (ps ! k)") (auto simp: task_inv_def)
  have only: "t = snd (ps ! k)" if "(svc, t) \<in> set ps" for t
  proof -
    from that obtain j where j: "j < length ps" "ps ! j = (svc, t)" by (auto simp: in_set_conv_nth)
    from dist m have "distinct (map fst ps)" by simp
    with j k have "j = k" by (metis fst_conv length_map nth_eq_iff_index_eq nth_map)
    with j show ?thesis by simp
  qed
  { assume "(svc, AwaitLs) \<in> set ps"
    from only[OF this] inv show "pin_requests svc w' = ?R0" by (simp add: task_inv_def) }
  { assume "(svc, AwaitAdd) \<in> set ps"
    from only[OF this] inv show "pin_requests svc w' = ?R0 @ [?rq]" by (simp add: task_inv_def) }
  { assume "all_fulfilled ps"
    with k have "snd (ps ! k) = Fulfilled" by (simp add: all_fulfilled_def list_all_length)
    with inv show "pin_requests svc w' = (if ?P0 then ?R0 else ?R0 @ [?rq])"
      by (simp add: task_inv_def) }
qed

theorem pin_fan_out_witness:
  "initialized storeAB \<and> ipfs storeAB \<noteq> None \<and> distinct (pinningServices storeAB)
   \<and> ''A'' \<in> set (pinningServices storeAB) \<and> ''B'' \<in> set (pinningServices storeAB)
   \<and> fair (length (pinningServices storeAB)) [0, 1, 0, 1]
   \<and> pin env_ok [0, 1, 0, 1] ''X'' storeAB world_init
        = Some (Inr (), storeAB, world_X, [(''A'', Fulfilled), (''B'', Fulfilled)])
   \<and> all_fulfilled [(''A'', Fulfilled), (''B'', Fulfilled)]
   \<and> (''A'', ''X'') \<notin> set (pins world_init)
   \<and> ls_requests ''A'' world_X = ls_requests ''A'' world_init @ [RemoteLs ''X'' ''A'']
   \<and> pin_requests ''A'' world_X = pin_requests ''A'' world_init @ [RemoteAdd ''X'' ''A'' False]
   \<and> pin env_lsA [0, 1, 0, 1] ''X'' storeAB world_init
        = Some (Inr (), storeAB, world_A_failed,
                [(''A'', Rejected (BackendFailure ''A'')), (''B'', AwaitLs)])
   \<and> pin_requests ''B'' world_A_failed = pin_requests ''B'' world_init
   \<and> pin env_lsA [1, 0] ''X'' storeAB world_init
        = Some (Inr (), storeAB, world_B_adding,
                [(''A'', Rejected (BackendFailure ''A'')), (''B'', AwaitAdd)])
   \<and> pin_requests ''B'' world_B_adding = pin_requests ''B'' world_init @ [RemoteAdd ''X'' ''B'' False]"
proof -
  have a: "initialized storeAB" "ipfs storeAB \<noteq> None" "distinct (pinningServices storeAB)"
    and mA: "''A'' \<in> set (pinningServices storeAB)" and mB: "''B'' \<in> set (pinningServices storeAB)"
    by (simp_all add: storeAB_def)
  have f: "all_fulfilled [(''A'', Fulfilled), (''B'', Fulfilled)]" by (simp add: all_fulfilled_def)
  have n: "(''A'', ''X'') \<notin> set (pins world_init)" by (simp add: world0_def world_init_def)
  from pin_fan_out[OF a mA, of "[0, 1, 0, 1]" env_ok "''X''" world_init] pin_X_first f n
  have 1: "ls_requests ''A'' world_X = ls_requests ''A'' world_init @ [RemoteLs ''X'' ''A'']
      \<and> pin_requests ''A'' world_X = pin_requests ''A'' world_init @ [RemoteAdd ''X'' ''A'' False]"
    by simp
  from pin_fan_out[OF a mB, of "[0, 1, 0, 1]" env_lsA "''X''" world_init] pin_X_A_fails
  have 2: "pin_requests ''B'' world_A_failed = pin_requests ''B'' world_init" by simp
  from pin_fan_out[OF a mB, of "[1, 0]" env_lsA "''X''" world_init] pin_X_A_fails_late
  have 3: "pin_requests ''B'' world_B_adding
             = pin_requests ''B'' world_init @ [RemoteAdd ''X'' ''B'' False]" by simp
  from a mA mB fair_2 pin_X_first f n 1 pin_X_A_fails 2 pin_X_A_fails_late 3 show ?thesis by simp
qed

subsection \<open>Registration of the pinning services\<close>

text \<open>
  Claim C8, as stated, says that a registration failure for one backend does not prevent
  the attempt to register the others. The rejected \<^verbatim>\<open>service.add\<close> of service A leaves
  the loop of \<^verbatim>\<open>init\<close>: the registration of service B is never requested, no name is
  recorded and the store stays uninitialized.
\<close>

theorem init_aborts_at_failed_registration:
  "init env_regA (constructor cfgAB) world0
     = (Inl (RegistrationFailure ''A''), store_regA, world_regA)
   \<and> register_call (cfgAB ! 1) = ServiceAdd ''B'' ''eb'' ''kb''
   \<and> ServiceAdd ''B'' ''eb'' ''kb'' \<notin> set (calls world_regA)
   \<and> pinningServices store_regA = [] \<and> \<not> initialized store_regA"
  using init_regA
  by (simp add: cfgAB_def register_call_def resolve_key_def store_regA_def world_regA_def
      world0_def)

text \<open>
  Claim C8, amended. During initialization the configured services are registered in
  order, each with its credential resolved (a function is called, a string is used as
  it is), and the name of a service is appended to the list of known services only
  after its registration succeeded. The first registration that fails ends
  initialization with that error: the services after it are not attempted, the names
  recorded are those before it, and the store is not marked initialized. Without a
  failure every service is registered and recorded, and the store is initialized.
\<close>

theorem init_registers_until_failure:
  assumes "\<not> initialized s" and "\<not> fails e (calls w) NodeCreate"
    and "init e s w = (r, s', w')"
  shows "resolve_key (Callable f) = f () \<and> resolve_key (Literal k) = k
    \<and> (\<exists>n\<le>length (config s).
        pinningServices s' = pinningServices s @ map svc_name (take n (config s))
      \<and> (r = Inr () \<longrightarrow> n = length (config s) \<and> initialized s'
            \<and> calls w' = calls w @ NodeCreate # map register_call (config s))
      \<and> (r \<noteq> Inr () \<longrightarrow> n < length (config s) \<and> \<not> initialized s'
            \<and> r = Inl (RegistrationFailure (svc_name (config s ! n)))
            \<and> calls w' = calls w @ NodeCreate # map register_call (take (Suc n) (config s))))"
proof (intro conjI)
  show "resolve_key (Callable f) = f ()" and "resolve_key (Literal k) = k"
    by (simp_all add: resolve_key_def)
  from assms(3) show "\<exists>n\<le>length (config s).
        pinningServices s' = pinningServices s @ map svc_name (take n (config s))
      \<and> (r = Inr () \<longrightarrow> n = length (config s) \<and> initialized s'
            \<and> calls w' = calls w @ NodeCreate # map register_call (config s))
      \<and> (r \<noteq> Inr () \<longrightarrow> n < length (config s) \<and> \<not> initialized s'
            \<and> r = Inl (RegistrationFailure (svc_name (config s ! n)))
            \<and> calls w' = calls w @ NodeCreate # map register_call (take (Suc n) (config s)))"
  proof (cases rule: init_cases)
    case already
    with assms(1) show ?thesis by simp
  next
    case nocreate
    with assms(2) show ?thesis by simp
  next
    case (regfail err)
    from register_all_trace[OF regfail(4)] register_all_store[OF regfail(4)] regfail(1,3)
    show ?thesis by auto
  next
    case (ok s2)
    from register_all_trace[OF ok(4)] register_all_store[OF ok(4)] ok(3,5)
    show ?thesis by auto
  qed
qed

theorem init_registers_until_failure_witness:
  "\<not> initialized (constructor cfgAB) \<and> \<not> fails env_ok (calls world0) NodeCreate
   \<and> init env_ok (constructor cfgAB) world0 = (Inr (), storeAB, world_init)
   \<and> resolve_key (Callable (\<lambda>_. ''kb'')) = ''kb'' \<and> resolve_key (Literal ''ka'') = ''ka''
   \<and> (\<exists>n\<le>length (config (constructor cfgAB)).
         pinningServices storeAB
           = pinningServices (constructor cfgAB) @ map svc_name (take n (config (constructor cfgAB)))
         \<and> n = length (config (constructor cfgAB)) \<and> initialized storeAB
         \<and> calls world_init
             = calls world0 @ NodeCreate # map register_call (config (constructor cfgAB)))
   \<and> \<not> fails env_regA (calls world0) NodeCreate
   \<and> init env_regA (constructor cfgAB) world0
        = (Inl (RegistrationFailure ''A''), store_regA, world_regA)
   \<and> (\<exists>n<length (config (constructor cfgAB)).
         pinningServices store_regA
           = pinningServices (constructor cfgAB) @ map svc_name (take n (config (constructor cfgAB)))
         \<and> \<not> initialized store_regA
         \<and> calls world_regA
             = calls world0 @ NodeCreate # map register_call (take (Suc n) (config (constructor cfgAB))))"
proof -
  have a: "\<not> initialized (constructor cfgAB)" "\<not> fails env_ok (calls world0) NodeCreate"
    by (simp_all add: constructor_def env_ok_def)
  have b: "\<not> fails env_regA (calls world0) NodeCreate" by (simp add: env_regA_def env_ok_def)
  from init_registers_until_failure[OF a init_AB, of "\<lambda>_. ''kb''" "''ka''"]
  have 1: "resolve_key (Callable (\<lambda>_. ''kb'')) = ''kb'' \<and> resolve_key (Literal ''ka'') = ''ka''
   \<and> (\<exists>n\<le>length (config (constructor cfgAB)).
         pinningServices storeAB
           = pinningServices (constructor cfgAB) @ map svc_name (take n (config (constructor cfgAB)))
         \<and> n = length (config (constructor cfgAB)) \<and> initialized storeAB
         \<and> calls world_init
             = calls world0 @ NodeCreate # map register_call (config (constructor cfgAB)))"
    by simp
  from init_registers_until_failure[OF a(1) b init_regA]
  have 2: "\<exists>n<length (config (constructor cfgAB)).
         pinningServices store_regA
           = pinningServices (constructor cfgAB) @ map svc_name (take n (config (constructor cfgAB)))
         \<and> \<not> initialized store_regA
         \<and> calls world_regA
             = calls world0 @ NodeCreate # map register_call (take (Suc n) (config (constructor cfgAB)))"
    by auto
  from a b init_AB init_regA 1 2 show ?thesis by blast
qed

end
